theory Spec2Isabelle
  imports Complex_Main "HOL-Library.Word"
begin

unbundle bit_operations_syntax

section \<open>The GraphML SAX driver (graphml.c)\<close>

text \<open>
  The parser is a set of three SAX handlers over one mutable \<^verbatim>\<open>GraphParserState\<close>.
  Each handler is modelled as a function from the state to the new state and the list
  of callbacks it invoked (\<^verbatim>\<open>newNodeFunc\<close>, \<^verbatim>\<open>newLinkFunc\<close>), in order.
  \<^verbatim>\<open>xmlChar*\<close> strings are \<^typ>\<open>string\<close>; a pointer that may be \<^verbatim>\<open>NULL\<close> is an
  \<^typ>\<open>string option\<close>. An attribute array \<^verbatim>\<open>atts\<close> (name, value, name, value, ..., NULL)
  is a list of pairs. The diagnostics that \<^verbatim>\<open>graphFatalError\<close> prints are kept in the
  state as a list, so that "what has been reported" is part of the state.
\<close>

datatype GraphParserMode =
  GpUnknown | GpInitial | GpTopLevel | GpGraph | GpNode | GpEdge | GpData

text \<open>
  A number read by \<^verbatim>\<open>strtod\<close> or \<^verbatim>\<open>strtoul\<close> is kept as the call that produced it:
  no claim depends on the numeric value, only on which text was converted.
\<close>

datatype cnum = Zero | Strtod string | Strtoul string

record xmlCharBuffer =
  len :: nat
  data :: string

record GraphNode =
  Id_n :: string
  Client :: bool
  PacketLoss :: cnum
  BandwidthUp :: cnum
  BandwidthDown :: cnum

record GraphLink =
  SourceId :: string
  TargetId :: string
  Latency :: cnum
  LinkPacketLoss :: cnum
  Jitter :: cnum
  QueueLen :: cnum

record nodeAttribsT =
  typeId :: "string option"
  packetLossId :: "string option"
  bandwidthUpId :: "string option"
  bandwidthDownId :: "string option"

record edgeAttribsT =
  latencyId :: "string option"
  edgePacketLossId :: "string option"
  jitterId :: "string option"
  queueLenId :: "string option"

datatype fatalDiag =
  NotGraphML
  | UnknownNamespace
  | KeyUnexpectedType string string
  | NodeWithoutId
  | EdgeWithoutSource
  | EdgeWithoutTarget
  | DirectedEdge string string
  | DataWithoutKey
  | BugStartState
  | BugDataState
  | BugEndState

record GraphParserState =
  mode :: GraphParserMode
  clientType :: "string option"
  unknownDepth :: "32 word"
  unknownMode :: GraphParserMode
  defaultUndirected :: bool
  nodeAttribs :: nodeAttribsT
  edgeAttribs :: edgeAttribsT
  dataKey :: xmlCharBuffer
  dataValue :: string
  dataValueCap :: nat
  dataMode :: GraphParserMode
  node :: GraphNode
  nodeId :: xmlCharBuffer
  link :: GraphLink
  linkSourceId :: xmlCharBuffer
  linkTargetId :: xmlCharBuffer
  partialError :: bool
  dead :: bool
  diagnostics :: "fatalDiag list"

datatype callback = NewNode GraphNode | NewLink GraphLink

text \<open>
  \<^verbatim>\<open>copyXmlStr\<close>: the text is copied; when it does not fit (with its terminator) the
  buffer is first regrown to twice the text's length.
\<close>

definition copyXmlStr :: "xmlCharBuffer \<Rightarrow> string \<Rightarrow> xmlCharBuffer" where
  "copyXmlStr dst src =
     (if length src \<ge> len dst then \<lparr>len = length src * 2, data = src\<rparr>
      else \<lparr>len = len dst, data = src\<rparr>)"

definition graphFatalError :: "GraphParserState \<Rightarrow> fatalDiag \<Rightarrow> GraphParserState" where
  "graphFatalError state d = state\<lparr>diagnostics := diagnostics state @ [d], dead := True\<rparr>"

text \<open>The first attribute of that name (a loop that stops with \<^verbatim>\<open>break\<close>).\<close>

fun firstAtt :: "string \<Rightarrow> (string \<times> string) list \<Rightarrow> string option" where
  "firstAtt k [] = None"
| "firstAtt k ((n, v) # atts) = (if n = k then Some v else firstAtt k atts)"

text \<open>The last attribute of that name (a loop that overwrites and runs to the end).\<close>

fun lastAtt :: "string \<Rightarrow> (string \<times> string) list \<Rightarrow> string option \<Rightarrow> string option" where
  "lastAtt k [] acc = acc"
| "lastAtt k ((n, v) # atts) acc = lastAtt k atts (if n = k then Some v else acc)"

text \<open>The type test of the macro \<^verbatim>\<open>CHECK_SET_ATTR\<close>.\<close>

definition correctType :: "string \<Rightarrow> bool \<Rightarrow> bool \<Rightarrow> bool \<Rightarrow> bool" where
  "correctType ty acceptInt acceptFloat acceptStr =
     (if ty = ''int'' \<or> ty = ''long'' then acceptInt
      else if ty = ''float'' \<or> ty = ''double'' then acceptFloat
      else if ty = ''string'' then acceptStr
      else False)"

definition setNodeAttr ::
  "GraphParserState \<Rightarrow> string \<Rightarrow> string \<Rightarrow> string \<Rightarrow> GraphParserState" where
  "setNodeAttr state name ident ty =
     (if name = ''type'' then
        (if \<not> correctType ty False False True
         then graphFatalError state (KeyUnexpectedType ''type'' ty)
         else state\<lparr>nodeAttribs := (nodeAttribs state)\<lparr>typeId := Some ident\<rparr>\<rparr>)
      else if name = ''packetloss'' then
        (if \<not> correctType ty True True False
         then graphFatalError state (KeyUnexpectedType ''packetloss'' ty)
         else state\<lparr>nodeAttribs := (nodeAttribs state)\<lparr>packetLossId := Some ident\<rparr>\<rparr>)
      else if name = ''bandwidthup'' then
        (if \<not> correctType ty True True False
         then graphFatalError state (KeyUnexpectedType ''bandwidthup'' ty)
         else state\<lparr>nodeAttribs := (nodeAttribs state)\<lparr>bandwidthUpId := Some ident\<rparr>\<rparr>)
      else if name = ''bandwidthdown'' then
        (if \<not> correctType ty True True False
         then graphFatalError state (KeyUnexpectedType ''bandwidthdown'' ty)
         else state\<lparr>nodeAttribs := (nodeAttribs state)\<lparr>bandwidthDownId := Some ident\<rparr>\<rparr>)
      else state)"

definition setEdgeAttr ::
  "GraphParserState \<Rightarrow> string \<Rightarrow> string \<Rightarrow> string \<Rightarrow> GraphParserState" where
  "setEdgeAttr state name ident ty =
     (if name = ''latency'' then
        (if \<not> correctType ty True True False
         then graphFatalError state (KeyUnexpectedType ''latency'' ty)
         else state\<lparr>edgeAttribs := (edgeAttribs state)\<lparr>latencyId := Some ident\<rparr>\<rparr>)
      else if name = ''packetloss'' then
        (if \<not> correctType ty True True False
         then graphFatalError state (KeyUnexpectedType ''packetloss'' ty)
         else state\<lparr>edgeAttribs := (edgeAttribs state)\<lparr>edgePacketLossId := Some ident\<rparr>\<rparr>)
      else if name = ''jitter'' then
        (if \<not> correctType ty True True False
         then graphFatalError state (KeyUnexpectedType ''jitter'' ty)
         else state\<lparr>edgeAttribs := (edgeAttribs state)\<lparr>jitterId := Some ident\<rparr>\<rparr>)
      else if name = ''queue_len'' then
        (if \<not> correctType ty True False False
         then graphFatalError state (KeyUnexpectedType ''queue_len'' ty)
         else state\<lparr>edgeAttribs := (edgeAttribs state)\<lparr>queueLenId := Some ident\<rparr>\<rparr>)
      else state)"

text \<open>The tail of \<^verbatim>\<open>graphStartElement\<close>: \<^verbatim>\<open>if (unknown) { ... }\<close>.\<close>

definition enterUnknown :: "bool \<Rightarrow> GraphParserState \<Rightarrow> GraphParserState" where
  "enterUnknown unknown state =
     (if unknown then state\<lparr>unknownMode := mode state, mode := GpUnknown, unknownDepth := 0\<rparr>
      else state)"

text \<open>The \<^verbatim>\<open>directed\<close> attribute loop of an \<^verbatim>\<open>edge\<close> element.\<close>

fun edgeUndirected :: "(string \<times> string) list \<Rightarrow> bool \<Rightarrow> bool" where
  "edgeUndirected [] u = u"
| "edgeUndirected ((n, v) # atts) u =
     edgeUndirected atts (if n = ''directed'' then (v = ''false'') else u)"

definition startTopLevel ::
  "GraphParserState \<Rightarrow> string \<Rightarrow> (string \<times> string) list \<Rightarrow> GraphParserState" where
  "startTopLevel state name atts =
     (if name = ''key'' then
        (let state' =
           (case (lastAtt ''attr.name'' atts None, lastAtt ''id'' atts None,
                  lastAtt ''attr.type'' atts None, lastAtt ''for'' atts None) of
              (Some aname, Some ident, Some ty, Some keyFor) \<Rightarrow>
                (if keyFor = ''node'' then setNodeAttr state aname ident ty
                 else if keyFor = ''edge'' then setEdgeAttr state aname ident ty
                 else state)
            | _ \<Rightarrow> state)
         in enterUnknown True state')
      else if name = ''graph'' then
        (let state' =
           (case firstAtt ''edgedefault'' atts of
              Some v \<Rightarrow> state\<lparr>defaultUndirected := (v = ''undirected'')\<rparr>
            | None \<Rightarrow> state)
         in enterUnknown False (state'\<lparr>mode := GpGraph\<rparr>))
      else enterUnknown True state)"

definition startGraph ::
  "GraphParserState \<Rightarrow> string \<Rightarrow> (string \<times> string) list \<Rightarrow> GraphParserState" where
  "startGraph state name atts =
     (if name = ''node'' then
        (case lastAtt ''id'' atts None of
           None \<Rightarrow> enterUnknown False (graphFatalError state NodeWithoutId)
         | Some ident \<Rightarrow>
             (let nid = copyXmlStr (nodeId state) ident in
              enterUnknown False
                (state\<lparr>nodeId := nid,
                   node := \<lparr>Id_n = data nid,
                            Client = (if clientType state \<noteq> None then False else True),
                            PacketLoss = Zero, BandwidthUp = Zero, BandwidthDown = Zero\<rparr>,
                   mode := GpNode\<rparr>)))
      else if name = ''edge'' then
        (let undirected = edgeUndirected atts (defaultUndirected state) in
         case lastAtt ''source'' atts None of
           None \<Rightarrow> enterUnknown False (graphFatalError state EdgeWithoutSource)
         | Some source \<Rightarrow>
             (case lastAtt ''target'' atts None of
                None \<Rightarrow> enterUnknown False (graphFatalError state EdgeWithoutTarget)
              | Some target \<Rightarrow>
                  (if \<not> undirected
                   then enterUnknown False (graphFatalError state (DirectedEdge source target))
                   else
                     (let sid = copyXmlStr (linkSourceId state) source;
                          tid = copyXmlStr (linkTargetId state) target in
                      enterUnknown False
                        (state\<lparr>linkSourceId := sid, linkTargetId := tid,
                           link := \<lparr>SourceId = data sid, TargetId = data tid,
                                    Latency = Zero, LinkPacketLoss = Zero, Jitter = Zero,
                                    QueueLen = Zero\<rparr>,
                           mode := GpEdge\<rparr>)))))
      else enterUnknown True state)"

definition startNodeOrEdge ::
  "GraphParserState \<Rightarrow> string \<Rightarrow> (string \<times> string) list \<Rightarrow> GraphParserState" where
  "startNodeOrEdge state name atts =
     (if name = ''data'' then
        (let state' =
           (case firstAtt ''key'' atts of
              Some k \<Rightarrow> state\<lparr>dataKey := copyXmlStr (dataKey state) k\<rparr>
            | None \<Rightarrow> graphFatalError state DataWithoutKey)
         in enterUnknown False
              (state'\<lparr>dataValue := [], dataMode := mode state', mode := GpData\<rparr>))
      else enterUnknown True state)"

definition graphStartElement ::
  "GraphParserState \<Rightarrow> string \<Rightarrow> (string \<times> string) list
     \<Rightarrow> GraphParserState \<times> callback list" where
  "graphStartElement state name atts =
     (if dead state then (state, [])
      else
        (case mode state of
           GpUnknown \<Rightarrow>
             (enterUnknown False (state\<lparr>unknownDepth := unknownDepth state + 1\<rparr>), [])
         | GpInitial \<Rightarrow>
             (if name \<noteq> ''graphml''
              then (enterUnknown False (graphFatalError state NotGraphML), [])
              else
                (let state' =
                   (case firstAtt ''xmlns'' atts of
                      Some v \<Rightarrow>
                        (if v \<noteq> ''http://graphml.graphdrawing.org/xmlns''
                         then graphFatalError state UnknownNamespace else state)
                    | None \<Rightarrow> state)
                 in (enterUnknown False (state'\<lparr>mode := GpTopLevel\<rparr>), [])))
         | GpTopLevel \<Rightarrow> (startTopLevel state name atts, [])
         | GpGraph \<Rightarrow> (startGraph state name atts, [])
         | GpNode \<Rightarrow> (startNodeOrEdge state name atts, [])
         | GpEdge \<Rightarrow> (startNodeOrEdge state name atts, [])
         | GpData \<Rightarrow> (enterUnknown True state, [])))"

text \<open>
  The value of a finished \<^verbatim>\<open>data\<close> element, applied to the node being built.
  The \<^verbatim>\<open>type\<close> attribute is compared with the literal \<^verbatim>\<open>"client"\<close>, as the source does.
\<close>

definition applyNodeData :: "GraphParserState \<Rightarrow> string \<Rightarrow> GraphParserState" where
  "applyNodeData state v =
     (let na = nodeAttribs state; k = Some (data (dataKey state)) in
      if typeId na \<noteq> None \<and> k = typeId na
        then state\<lparr>node := (node state)\<lparr>Client := (v = ''client'')\<rparr>\<rparr>
      else if packetLossId na \<noteq> None \<and> k = packetLossId na
        then state\<lparr>node := (node state)\<lparr>PacketLoss := Strtod v\<rparr>\<rparr>
      else if bandwidthUpId na \<noteq> None \<and> k = bandwidthUpId na
        then state\<lparr>node := (node state)\<lparr>BandwidthUp := Strtod v\<rparr>\<rparr>
      else if bandwidthDownId na \<noteq> None \<and> k = bandwidthDownId na
        then state\<lparr>node := (node state)\<lparr>BandwidthDown := Strtod v\<rparr>\<rparr>
      else state)"

definition applyEdgeData :: "GraphParserState \<Rightarrow> string \<Rightarrow> GraphParserState" where
  "applyEdgeData state v =
     (let ea = edgeAttribs state; k = Some (data (dataKey state)) in
      if latencyId ea \<noteq> None \<and> k = latencyId ea
        then state\<lparr>link := (link state)\<lparr>Latency := Strtod v\<rparr>\<rparr>
      else if edgePacketLossId ea \<noteq> None \<and> k = edgePacketLossId ea
        then state\<lparr>link := (link state)\<lparr>LinkPacketLoss := Strtod v\<rparr>\<rparr>
      else if jitterId ea \<noteq> None \<and> k = jitterId ea
        then state\<lparr>link := (link state)\<lparr>Jitter := Strtod v\<rparr>\<rparr>
      else if queueLenId ea \<noteq> None \<and> k = queueLenId ea
        then state\<lparr>link := (link state)\<lparr>QueueLen := Strtoul v\<rparr>\<rparr>
      else state)"

definition graphEndElement ::
  "GraphParserState \<Rightarrow> string \<Rightarrow> GraphParserState \<times> callback list" where
  "graphEndElement state name =
     (if dead state then (state, [])
      else
        (case mode state of
           GpUnknown \<Rightarrow>
             (if unknownDepth state = 0 then (state\<lparr>mode := unknownMode state\<rparr>, [])
              else (state\<lparr>unknownDepth := unknownDepth state - 1\<rparr>, []))
         | GpData \<Rightarrow>
             (let v = dataValue state;
                  state' =
                    (case dataMode state of
                       GpNode \<Rightarrow> applyNodeData state v
                     | GpEdge \<Rightarrow> applyEdgeData state v
                     | _ \<Rightarrow> graphFatalError state BugDataState)
              in (state'\<lparr>mode := dataMode state'\<rparr>, []))
         | GpNode \<Rightarrow> (state\<lparr>mode := GpGraph\<rparr>, [NewNode (node state)])
         | GpEdge \<Rightarrow> (state\<lparr>mode := GpGraph\<rparr>, [NewLink (link state)])
         | GpGraph \<Rightarrow> (state\<lparr>mode := GpTopLevel\<rparr>, [])
         | GpTopLevel \<Rightarrow>
             (state\<lparr>mode := GpUnknown, unknownDepth := 0, unknownMode := GpUnknown\<rparr>, [])
         | GpInitial \<Rightarrow> (graphFatalError state BugEndState, [])))"

definition graphCharacters :: "GraphParserState \<Rightarrow> string \<Rightarrow> GraphParserState" where
  "graphCharacters state ch =
     (if dead state then state
      else if mode state = GpData then
        (let newSize = length (dataValue state) + length ch;
             cap = (if newSize > dataValueCap state then newSize * 2 else dataValueCap state)
         in state\<lparr>dataValueCap := cap, dataValue := dataValue state @ ch\<rparr>)
      else state)"

text \<open>
  The events libxml delivers, in document order, and the handlers run over them.
\<close>

datatype saxEvent =
  StartElement string "(string \<times> string) list"
  | EndElement string
  | Characters string

fun graphEvent :: "GraphParserState \<Rightarrow> saxEvent \<Rightarrow> GraphParserState \<times> callback list" where
  "graphEvent state (StartElement name atts) = graphStartElement state name atts"
| "graphEvent state (EndElement name) = graphEndElement state name"
| "graphEvent state (Characters ch) = (graphCharacters state ch, [])"

fun graphEvents :: "GraphParserState \<Rightarrow> saxEvent list \<Rightarrow> GraphParserState \<times> callback list" where
  "graphEvents state [] = (state, [])"
| "graphEvents state (e # es) =
     (let (state', cbs) = graphEvent state e;
          (state'', cbs') = graphEvents state' es
      in (state'', cbs @ cbs'))"

text \<open>
  \<^verbatim>\<open>initGraphParserState\<close> writes the fields below into a state whose other fields
  (\<^verbatim>\<open>node\<close>, \<^verbatim>\<open>link\<close>, the unknown-element and data modes) keep what the memory held.
  Nothing has been reported yet, so the list of diagnostics starts empty.
\<close>

definition DefaultXmlBufferLen :: nat where
  "DefaultXmlBufferLen = 255"

definition initGraphParserState ::
  "GraphParserState \<Rightarrow> string option \<Rightarrow> GraphParserState" where
  "initGraphParserState mem ct =
     mem\<lparr>clientType := ct, mode := GpInitial, defaultUndirected := False,
         dataKey := \<lparr>len = DefaultXmlBufferLen, data = data (dataKey mem)\<rparr>,
         dataValueCap := DefaultXmlBufferLen, dataValue := [],
         nodeId := \<lparr>len = DefaultXmlBufferLen, data = data (nodeId mem)\<rparr>,
         linkSourceId := \<lparr>len = DefaultXmlBufferLen, data = data (linkSourceId mem)\<rparr>,
         linkTargetId := \<lparr>len = DefaultXmlBufferLen, data = data (linkTargetId mem)\<rparr>,
         partialError := False, dead := False, diagnostics := [],
         nodeAttribs := \<lparr>typeId = None, packetLossId = None, bandwidthUpId = None,
                          bandwidthDownId = None\<rparr>,
         edgeAttribs := \<lparr>latencyId = None, edgePacketLossId = None, jitterId = None,
                          queueLenId = None\<rparr>\<rparr>"

text \<open>
  A concrete parser memory and a small document, used to run the handlers: a \<^verbatim>\<open>type\<close>
  key declared for nodes, and one node whose \<^verbatim>\<open>type\<close> data is the given text.
\<close>

definition mem0 :: GraphParserState where
  "mem0 = \<lparr>mode = GpUnknown, clientType = None, unknownDepth = 0, unknownMode = GpUnknown,
     defaultUndirected = False,
     nodeAttribs = \<lparr>typeId = None, packetLossId = None, bandwidthUpId = None,
                     bandwidthDownId = None\<rparr>,
     edgeAttribs = \<lparr>latencyId = None, edgePacketLossId = None, jitterId = None,
                     queueLenId = None\<rparr>,
     dataKey = \<lparr>len = 0, data = []\<rparr>, dataValue = [], dataValueCap = 0,
     dataMode = GpUnknown,
     node = \<lparr>Id_n = [], Client = False, PacketLoss = Zero, BandwidthUp = Zero,
              BandwidthDown = Zero\<rparr>,
     nodeId = \<lparr>len = 0, data = []\<rparr>,
     link = \<lparr>SourceId = [], TargetId = [], Latency = Zero, LinkPacketLoss = Zero,
              Jitter = Zero, QueueLen = Zero\<rparr>,
     linkSourceId = \<lparr>len = 0, data = []\<rparr>, linkTargetId = \<lparr>len = 0, data = []\<rparr>,
     partialError = False, dead = False, diagnostics = []\<rparr>"

definition typedNodeDoc :: "string \<Rightarrow> saxEvent list" where
  "typedNodeDoc v =
     [StartElement ''graphml'' [(''xmlns'', ''http://graphml.graphdrawing.org/xmlns'')],
      StartElement ''key'' [(''attr.name'', ''type''), (''id'', ''d0''),
                            (''attr.type'', ''string''), (''for'', ''node'')],
      EndElement ''key'',
      StartElement ''graph'' [(''edgedefault'', ''undirected'')],
      StartElement ''node'' [(''id'', ''n1'')],
      StartElement ''data'' [(''key'', ''d0'')],
      Characters v,
      EndElement ''data'',
      EndElement ''node'']"

lemmas parser_defs =
  typedNodeDoc_def initGraphParserState_def mem0_def graphStartElement_def
  graphEndElement_def graphCharacters_def startTopLevel_def startGraph_def
  startNodeOrEdge_def enterUnknown_def setNodeAttr_def setEdgeAttr_def correctType_def
  copyXmlStr_def applyNodeData_def applyEdgeData_def graphFatalError_def
  DefaultXmlBufferLen_def Let_def

section \<open>The MAC address generator (ip.c)\<close>

text \<open>
  A \<^verbatim>\<open>macAddr\<close> is its array of octets, most significant first. \<^verbatim>\<open>MAC_ADDR_BYTES\<close> comes
  from the header \<^verbatim>\<open>ip.h\<close>; the six conversions of \<^verbatim>\<open>macGetAddr\<close> and \<^verbatim>\<open>macAddrToString\<close>
  fix it at 6. \<^verbatim>\<open>macNextAddr\<close> walks the octets from the last to the first, incrementing
  each (an \<^verbatim>\<open>uint8_t\<close>, so 255 becomes 0) and stopping at the first that does not become 0;
  it returns false when every octet wrapped. \<^verbatim>\<open>macNextAddrs\<close> returns the flag, the advanced
  counter and the entries it wrote into the caller's buffer.
\<close>

type_synonym macAddr = "8 word list"

definition MAC_ADDR_BYTES :: nat where
  "MAC_ADDR_BYTES = 6"

fun macNextAddrLoop :: "nat \<Rightarrow> macAddr \<Rightarrow> bool \<times> macAddr" where
  "macNextAddrLoop 0 octets = (False, octets)"
| "macNextAddrLoop (Suc j) octets =
     (let octets' = octets[j := octets ! j + 1]
      in if octets' ! j \<noteq> 0 then (True, octets') else macNextAddrLoop j octets')"

definition macNextAddr :: "macAddr \<Rightarrow> bool \<times> macAddr" where
  "macNextAddr addr = macNextAddrLoop MAC_ADDR_BYTES addr"

fun macNextAddrsLoop :: "nat \<Rightarrow> macAddr \<Rightarrow> macAddr list \<Rightarrow> bool \<Rightarrow> bool \<times> macAddr \<times> macAddr list" where
  "macNextAddrsLoop 0 nextAddr buffer unwrapped = (unwrapped, nextAddr, buffer)"
| "macNextAddrsLoop (Suc n) nextAddr buffer unwrapped =
     (let (ok, nextAddr') = macNextAddr nextAddr
      in macNextAddrsLoop n nextAddr' (buffer @ [nextAddr]) (if \<not> ok then False else unwrapped))"

definition macNextAddrs :: "macAddr \<Rightarrow> nat \<Rightarrow> bool \<times> macAddr \<times> macAddr list" where
  "macNextAddrs nextAddr count = macNextAddrsLoop count nextAddr [] True"

text \<open>An address read as a big-endian integer.\<close>

definition macValue :: "macAddr \<Rightarrow> nat" where
  "macValue octets = foldl (\<lambda>acc b. acc * 256 + unat b) 0 octets"

section \<open>Client-to-edge assignment (setup.c, gmlNextEdge)\<close>

subsection \<open>Binary64 arithmetic\<close>

text \<open>
  \<^verbatim>\<open>gmlAddLink\<close> and \<^verbatim>\<open>gmlNextEdge\<close> compute with \<^verbatim>\<open>double\<close>. A finite \<^verbatim>\<open>double\<close> is
  modelled by the rational number it holds, and every operation by the exact result
  rounded to binary64 in the rounding mode in effect (\<^verbatim>\<open>fenv.h\<close>): the nearest values with
  a significand of 53 bits, exponents down to the subnormal range. Infinities and NaN
  are not modelled; the values here are quotients and products of counts below
  \<open>2^64\<close>, far from the overflow threshold \<open>2^1024\<close>.

  \<open>floorLog2 n\<close> is the exponent of a number with integer part \<open>n \<ge> 1\<close>, and
  \<open>binadeScale x\<close> is the factor that turns a positive \<open>x\<close> into its significand counted
  in units in the last place: \<open>2^52 / 2^e\<close> for \<open>2^e \<le> x < 2^(e+1)\<close>, held at \<open>2^1074\<close> for
  subnormals. \<open>roundInt\<close> rounds that count to an integer (for a nonnegative count) and
  \<open>fl\<close> is the rounding of a real result; a negative value is rounded as its mirror
  image.
\<close>

datatype roundingMode = FE_TONEAREST | FE_DOWNWARD | FE_UPWARD | FE_TOWARDZERO

text \<open>
  C's \<^verbatim>\<open>round\<close> rounds halfway cases away from zero, whatever the rounding mode;
  \<^verbatim>\<open>llrint\<close> under \<^verbatim>\<open>FE_TONEAREST\<close> rounds them to even.
\<close>

definition c_round :: "rat \<Rightarrow> int" where
  "c_round x = (if 0 \<le> x then \<lfloor>x + 1 / 2\<rfloor> else \<lceil>x - 1 / 2\<rceil>)"

definition llrint_nearest :: "rat \<Rightarrow> int" where
  "llrint_nearest x =
     (let f = \<lfloor>x\<rfloor>; d = x - of_int f
      in if d < 1 / 2 then f
         else if 1 / 2 < d then f + 1
         else if even f then f else f + 1)"

definition roundInt :: "roundingMode \<Rightarrow> rat \<Rightarrow> int" where
  "roundInt rm s =
     (case rm of
        FE_TONEAREST \<Rightarrow> llrint_nearest s
      | FE_DOWNWARD \<Rightarrow> \<lfloor>s\<rfloor>
      | FE_UPWARD \<Rightarrow> \<lceil>s\<rceil>
      | FE_TOWARDZERO \<Rightarrow> \<lfloor>s\<rfloor>)"

function floorLog2 :: "int \<Rightarrow> nat" where
  "floorLog2 n = (if n < 2 then 0 else Suc (floorLog2 (n div 2)))"
  by pat_completeness auto
termination
  by (relation "measure nat") auto

declare floorLog2.simps [simp del]

definition binadeScale :: "rat \<Rightarrow> rat" where
  "binadeScale x =
     (if 1 \<le> x then 2 ^ 52 / 2 ^ floorLog2 \<lfloor>x\<rfloor>
      else 2 ^ 52 * 2 ^ min (Suc (floorLog2 (\<lceil>1 / x\<rceil> - 1))) 1022)"

definition flPos :: "roundingMode \<Rightarrow> rat \<Rightarrow> rat" where
  "flPos rm x = of_int (roundInt rm (x * binadeScale x)) / binadeScale x"

definition mirror :: "roundingMode \<Rightarrow> roundingMode" where
  "mirror rm =
     (case rm of
        FE_DOWNWARD \<Rightarrow> FE_UPWARD
      | FE_UPWARD \<Rightarrow> FE_DOWNWARD
      | FE_TONEAREST \<Rightarrow> FE_TONEAREST
      | FE_TOWARDZERO \<Rightarrow> FE_TOWARDZERO)"

definition fl :: "roundingMode \<Rightarrow> rat \<Rightarrow> rat" where
  "fl rm x = (if x = 0 then 0 else if 0 < x then flPos rm x else - flPos (mirror rm) (- x))"

subsection \<open>The capacities of the edge nodes\<close>

text \<open>
  \<^verbatim>\<open>gmlAddLink\<close> stores \<^verbatim>\<open>clientsPerEdge = (double)clientNodes / (double)edgeNodeCount\<close>:
  two conversions and a division, each rounded in the mode \<open>rm\<close> in effect at that
  moment (\<^verbatim>\<open>setupInit\<close> rejects an edge node count of 0).

  \<^verbatim>\<open>gmlNextEdge\<close> computes the capacity of edge \<^verbatim>\<open>currentEdgeIdx\<close>: the two products
  \<^verbatim>\<open>clientsPerEdge * currentEdgeIdx\<close> and \<^verbatim>\<open>clientsPerEdge * (currentEdgeIdx+1)\<close> are formed
  and rounded in the mode \<open>rm\<close> in effect on entry, each is passed through \<^verbatim>\<open>round\<close>,
  then \<^verbatim>\<open>fesetround(FE_TONEAREST)\<close> is called, and the difference of the two markers is
  formed, passed through \<^verbatim>\<open>llrint\<close> and converted to the 32-bit count that
  \<^verbatim>\<open>ip4FragmentSubnet\<close> takes.
\<close>

definition clientsPerEdge :: "roundingMode \<Rightarrow> nat \<Rightarrow> nat \<Rightarrow> rat" where
  "clientsPerEdge rm clientNodes edgeNodeCount =
     fl rm (fl rm (of_nat clientNodes) / fl rm (of_nat edgeNodeCount))"

definition currentEdgeCapacity :: "roundingMode \<Rightarrow> rat \<Rightarrow> nat \<Rightarrow> 32 word" where
  "currentEdgeCapacity rm cpe currentEdgeIdx =
     (let prevMarker = c_round (fl rm (cpe * fl rm (of_nat currentEdgeIdx)));
          nextMarker = c_round (fl rm (cpe * fl rm (of_nat (currentEdgeIdx + 1))))
      in word_of_int
           (llrint_nearest (fl FE_TONEAREST (of_int nextMarker - of_int prevMarker))))"

text \<open>
  The capacities of \<open>n\<close> successive edges from \<open>idx\<close> on. The first call of \<^verbatim>\<open>gmlNextEdge\<close>
  runs in the rounding mode \<open>rm\<close> that the program is in by then. Every call ends by
  fragmenting the edge's subnet, and \<^verbatim>\<open>ip4FragmentSubnet\<close> calls
  \<^verbatim>\<open>fesetround(FE_DOWNWARD)\<close>; so every later call forms its products under
  \<^verbatim>\<open>FE_DOWNWARD\<close>. (Where the fragmenter returns \<^verbatim>\<open>NULL\<close> before that, \<^verbatim>\<open>gmlNextEdge\<close>
  dereferences the null pointer and there is no later call.)
\<close>

fun edgeCapacities :: "roundingMode \<Rightarrow> rat \<Rightarrow> nat \<Rightarrow> nat \<Rightarrow> 32 word list" where
  "edgeCapacities rm cpe idx 0 = []"
| "edgeCapacities rm cpe idx (Suc n) =
     currentEdgeCapacity rm cpe idx # edgeCapacities FE_DOWNWARD cpe (idx + 1) n"

text \<open>
  The marker \<^verbatim>\<open>round(clientsPerEdge * i)\<close> as the calls under \<^verbatim>\<open>FE_DOWNWARD\<close> compute it.
\<close>

definition edgeMarker :: "rat \<Rightarrow> nat \<Rightarrow> int" where
  "edgeMarker cpe i = c_round (fl FE_DOWNWARD (cpe * of_nat i))"

section \<open>IPv4 primitives, the address iterator and the fragmenter (ip.c)\<close>

text \<open>
  An \<^verbatim>\<open>ip4Addr\<close> is the 32-bit value that holds the address in network byte order, as
  the code stores it; the host is little-endian (the x86 Linux hosts the program runs
  on), so its first octet is the low byte and \<^verbatim>\<open>ntohl\<close>/\<^verbatim>\<open>htonl\<close> swap the four bytes.
  \<^verbatim>\<open>prefixLen\<close> is an \<^verbatim>\<open>uint8_t\<close>. The shifts \<^verbatim>\<open>(uint64_t)1 << (32 - prefixLen)\<close> are
  written for \<open>prefixLen \<le> 32\<close>, which \<^verbatim>\<open>ip4GetSubnet\<close> enforces.
\<close>

type_synonym ip4Addr = "32 word"

record ip4Subnet =
  addr :: ip4Addr
  prefixLen :: "8 word"

text \<open>The byte swap of a little-endian host.\<close>

definition ntohl :: "32 word \<Rightarrow> 32 word" where
  "ntohl w = push_bit 24 (take_bit 8 w) OR push_bit 16 (take_bit 8 (drop_bit 8 w))
     OR push_bit 8 (take_bit 8 (drop_bit 16 w)) OR take_bit 8 (drop_bit 24 w)"

definition htonl :: "32 word \<Rightarrow> 32 word" where
  "htonl w = ntohl w"

definition ip4HostMask :: "ip4Subnet \<Rightarrow> ip4Addr" where
  "ip4HostMask subnet =
     ntohl (ucast (push_bit (32 - unat (prefixLen subnet)) (1 :: 64 word) - 1))"

definition ip4SubnetMask :: "ip4Subnet \<Rightarrow> ip4Addr" where
  "ip4SubnetMask subnet = NOT (ip4HostMask subnet)"

definition ip4SubnetStart :: "ip4Subnet \<Rightarrow> ip4Addr" where
  "ip4SubnetStart subnet = addr subnet"

definition ip4SubnetEnd :: "ip4Subnet \<Rightarrow> ip4Addr" where
  "ip4SubnetEnd subnet = addr subnet OR ip4HostMask subnet"

definition ip4SubnetSize :: "ip4Subnet \<Rightarrow> bool \<Rightarrow> 64 word" where
  "ip4SubnetSize subnet excludeReserved =
     (let count = push_bit (32 - unat (prefixLen subnet)) (1 :: 64 word)
      in if excludeReserved \<and> count > 2 then count - 2 else count)"

definition ip4SubnetHasReserved :: "ip4Subnet \<Rightarrow> bool" where
  "ip4SubnetHasReserved subnet \<longleftrightarrow> prefixLen subnet \<le> 30"

definition ip4SubnetsOverlap :: "ip4Subnet \<Rightarrow> ip4Subnet \<Rightarrow> bool" where
  "ip4SubnetsOverlap subnet1 subnet2 =
     (let mask = (if prefixLen subnet1 < prefixLen subnet2 then ip4SubnetMask subnet1
                  else ip4SubnetMask subnet2)
      in (addr subnet1 AND mask) = (addr subnet2 AND mask))"

subsection \<open>The address iterator\<close>

text \<open>
  The iterator works on host-order addresses held in \<^verbatim>\<open>int64_t\<close>, modelled as \<^typ>\<open>int\<close>
  (they stay within \<open>-1 .. 2^32\<close>). The fields \<^verbatim>\<open>start\<close> and \<^verbatim>\<open>end\<close> of \<^verbatim>\<open>ignoreRange\<close> are
  named \<open>rstart\<close> and \<open>rend\<close>.
\<close>

record ignoreRange =
  rstart :: int
  rend :: int

definition ignoreRangeCompare :: "ignoreRange \<Rightarrow> ignoreRange \<Rightarrow> int" where
  "ignoreRangeCompare range1 range2 =
     (if rstart range1 < rstart range2 then - 1
      else if rstart range1 > rstart range2 then 1
      else if rend range1 > rend range2 then - 1
      else if rend range1 = rend range2 then 0
      else 1)"

text \<open>
  \<^verbatim>\<open>qsort\<close> with \<^verbatim>\<open>ignoreRangeCompare\<close>. The comparator is a total order in which only
  identical ranges compare equal, so the sorted array is the same whatever algorithm
  the C library uses; the model inserts one range after the other.
\<close>

fun insertRange :: "ignoreRange \<Rightarrow> ignoreRange list \<Rightarrow> ignoreRange list" where
  "insertRange r [] = [r]"
| "insertRange r (x # xs) =
     (if ignoreRangeCompare r x \<le> 0 then r # x # xs else x # insertRange r xs)"

definition qsortRanges :: "ignoreRange list \<Rightarrow> ignoreRange list" where
  "qsortRanges rs = foldr insertRange rs []"

record ip4Iter =
  currentAddr :: int
  finalAddr :: int
  ignores :: "ignoreRange list"
  ignoreCount :: nat
  currentIgnoreNum :: nat

text \<open>
  \<^verbatim>\<open>ip4NewIter\<close>. The \<^verbatim>\<open>NULL\<close>-terminated array \<^verbatim>\<open>avoidSubnets\<close> is a list (\<^verbatim>\<open>NULL\<close> itself
  the empty list). The cached pointer \<^verbatim>\<open>currentIgnore\<close> always equals
  \<^verbatim>\<open>&ignores[currentIgnoreNum]\<close>, so it is a function of the state here.
\<close>

definition subnetRange :: "ip4Subnet \<Rightarrow> ignoreRange" where
  "subnetRange s = \<lparr>rstart = uint (ntohl (ip4SubnetStart s)),
                     rend = uint (ntohl (ip4SubnetEnd s))\<rparr>"

definition ip4NewIter :: "ip4Subnet \<Rightarrow> bool \<Rightarrow> ip4Subnet list \<Rightarrow> ip4Iter" where
  "ip4NewIter subnet excludeReserved avoidSubnets =
     (let needToExclude = (excludeReserved \<and> ip4SubnetHasReserved subnet);
          givenIgnores = length avoidSubnets;
          first = uint (ntohl (ip4SubnetStart subnet));
          last = uint (ntohl (ip4SubnetEnd subnet))
      in \<lparr>currentAddr = first - 1,
          finalAddr = last,
          ignores =
            (if \<not> needToExclude \<and> givenIgnores = 0 then []
             else qsortRanges
                    (map subnetRange avoidSubnets @
                     (if needToExclude
                      then [\<lparr>rstart = first, rend = first\<rparr>, \<lparr>rstart = last, rend = last\<rparr>]
                      else []))),
          ignoreCount =
            (if \<not> needToExclude \<and> givenIgnores = 0 then 0
             else givenIgnores + (if needToExclude then 2 else 0)),
          currentIgnoreNum = 0\<rparr>)"

definition IGNORES_REMAIN :: "ip4Iter \<Rightarrow> bool" where
  "IGNORES_REMAIN it \<longleftrightarrow> currentIgnoreNum it < ignoreCount it"

definition currentIgnore :: "ip4Iter \<Rightarrow> ignoreRange" where
  "currentIgnore it = ignores it ! currentIgnoreNum it"

text \<open>
  The inner \<^verbatim>\<open>do ... while\<close> of \<^verbatim>\<open>ip4IterNext\<close>: step past the range just skipped, and
  on over every following range that ends below the current address.
\<close>

function ip4IterAdvance :: "ip4Iter \<Rightarrow> ip4Iter" where
  "ip4IterAdvance it =
     (let it' = it\<lparr>currentIgnoreNum := currentIgnoreNum it + 1\<rparr>
      in if IGNORES_REMAIN it' \<and> currentAddr it' > rend (currentIgnore it')
         then ip4IterAdvance it' else it')"
  by pat_completeness auto
termination
  by (relation "measure (\<lambda>it. ignoreCount it - currentIgnoreNum it)")
    (auto simp: IGNORES_REMAIN_def)

declare ip4IterAdvance.simps [simp del]

lemma ip4IterAdvance_cursor:
  "ignoreCount (ip4IterAdvance it) = ignoreCount it \<and>
   currentIgnoreNum it < currentIgnoreNum (ip4IterAdvance it)"
proof (induction it rule: ip4IterAdvance.induct)
  case (1 it)
  show ?case
  proof (cases "IGNORES_REMAIN (it\<lparr>currentIgnoreNum := currentIgnoreNum it + 1\<rparr>) \<and>
      rend (currentIgnore (it\<lparr>currentIgnoreNum := currentIgnoreNum it + 1\<rparr>))
        < currentAddr (it\<lparr>currentIgnoreNum := currentIgnoreNum it + 1\<rparr>)")
    case True
    from 1 [OF refl True] show ?thesis
      using True by (subst (1 2) ip4IterAdvance.simps) (simp add: Let_def)
  next
    case False
    then show ?thesis
      by (subst (1 2) ip4IterAdvance.simps) (auto simp add: Let_def)
  qed
qed

text \<open>The outer \<^verbatim>\<open>while (true)\<close> of \<^verbatim>\<open>ip4IterNext\<close>.\<close>

definition insideIgnore :: "ip4Iter \<Rightarrow> bool" where
  "insideIgnore it \<longleftrightarrow>
     IGNORES_REMAIN it \<and>
     (currentAddr it \<ge> rstart (currentIgnore it) \<and> currentAddr it \<le> rend (currentIgnore it))"

function ip4IterSkip :: "ip4Iter \<Rightarrow> ip4Iter" where
  "ip4IterSkip it =
     (if \<not> insideIgnore it then it
      else ip4IterSkip (ip4IterAdvance (it\<lparr>currentAddr := rend (currentIgnore it) + 1\<rparr>)))"
  by pat_completeness auto
termination
proof (relation "measure (\<lambda>it. ignoreCount it - currentIgnoreNum it)", goal_cases)
  case 1
  show ?case by simp
next
  case (2 it)
  then have r: "currentIgnoreNum it < ignoreCount it"
    by (simp add: insideIgnore_def IGNORES_REMAIN_def)
  let ?it1 = "it\<lparr>currentAddr := rend (currentIgnore it) + 1\<rparr>"
  have "ignoreCount (ip4IterAdvance ?it1) = ignoreCount it"
    "currentIgnoreNum it < currentIgnoreNum (ip4IterAdvance ?it1)"
    using ip4IterAdvance_cursor [of ?it1] by simp_all
  then show ?case
    using r by simp
qed

declare ip4IterSkip.simps [simp del]

definition ip4IterNext :: "ip4Iter \<Rightarrow> bool \<times> ip4Iter" where
  "ip4IterNext it =
     (if currentAddr it \<ge> finalAddr it then (False, it)
      else (let it' = ip4IterSkip (it\<lparr>currentAddr := currentAddr it + 1\<rparr>)
            in (currentAddr it' \<le> finalAddr it', it')))"

definition ip4IterAddr :: "ip4Iter \<Rightarrow> ip4Addr" where
  "ip4IterAddr it = htonl (word_of_int (currentAddr it))"

lemma ip4IterAdvance_frame:
  "currentAddr (ip4IterAdvance it) = currentAddr it \<and>
   finalAddr (ip4IterAdvance it) = finalAddr it \<and>
   ignores (ip4IterAdvance it) = ignores it"
proof (induction it rule: ip4IterAdvance.induct)
  case (1 it)
  show ?case
  proof (cases "IGNORES_REMAIN (it\<lparr>currentIgnoreNum := currentIgnoreNum it + 1\<rparr>) \<and>
      rend (currentIgnore (it\<lparr>currentIgnoreNum := currentIgnoreNum it + 1\<rparr>))
        < currentAddr (it\<lparr>currentIgnoreNum := currentIgnoreNum it + 1\<rparr>)")
    case True
    from 1 [OF refl True] show ?thesis
      using True by (subst (1 2 3) ip4IterAdvance.simps) (simp add: Let_def)
  next
    case False
    then show ?thesis
      by (subst (1 2 3) ip4IterAdvance.simps) (auto simp add: Let_def)
  qed
qed

lemma ip4IterSkip_frame:
  "currentAddr it \<le> currentAddr (ip4IterSkip it) \<and>
   finalAddr (ip4IterSkip it) = finalAddr it \<and>
   ignores (ip4IterSkip it) = ignores it \<and>
   ignoreCount (ip4IterSkip it) = ignoreCount it"
proof (induction it rule: ip4IterSkip.induct)
  case (1 it)
  show ?case
  proof (cases "insideIgnore it")
    case False
    then show ?thesis by (subst (1 2 3 4) ip4IterSkip.simps) simp
  next
    case True
    let ?it1 = "it\<lparr>currentAddr := rend (currentIgnore it) + 1\<rparr>"
    have le: "currentAddr it \<le> rend (currentIgnore it)"
      using True by (simp add: insideIgnore_def)
    have eq: "ip4IterSkip it = ip4IterSkip (ip4IterAdvance ?it1)"
      using True by (subst ip4IterSkip.simps) simp
    have "\<not> \<not> insideIgnore it" using True by simp
    from 1 [OF this] ip4IterAdvance_frame [of ?it1] ip4IterAdvance_cursor [of ?it1] le
    show ?thesis
      unfolding eq by simp
  qed
qed

text \<open>
  The caller's loop \<^verbatim>\<open>while (ip4IterNext(it)) { ... ip4IterAddr(it) ... }\<close>: every address
  the iterator yields, in order. It ends because each successful step raises
  \<^verbatim>\<open>currentAddr\<close>, which stays at or below \<^verbatim>\<open>finalAddr\<close>.
\<close>

function ip4IterAll :: "ip4Iter \<Rightarrow> ip4Addr list" where
  "ip4IterAll it =
     (case ip4IterNext it of
        (False, it') \<Rightarrow> []
      | (True, it') \<Rightarrow> ip4IterAddr it' # ip4IterAll it')"
  by pat_completeness auto
lemma ip4IterNext_progress:
  assumes "ip4IterNext it = (True, it')"
  shows "currentAddr it < currentAddr it' \<and> currentAddr it' \<le> finalAddr it' \<and>
         finalAddr it' = finalAddr it"
proof -
  have lt: "currentAddr it < finalAddr it"
    using assms by (auto simp: ip4IterNext_def split: if_splits)
  let ?it1 = "it\<lparr>currentAddr := currentAddr it + 1\<rparr>"
  have i: "it' = ip4IterSkip ?it1" "currentAddr it' \<le> finalAddr it'"
    using assms lt by (auto simp: ip4IterNext_def Let_def)
  have "currentAddr it < currentAddr it'" "finalAddr it' = finalAddr it"
    using ip4IterSkip_frame [of ?it1] i(1) by simp_all
  then show ?thesis using i(2) by simp
qed

termination ip4IterAll
proof (relation "measure (\<lambda>it. nat (finalAddr it - currentAddr it))", goal_cases)
  case 1
  show ?case by simp
next
  case (2 it x y)
  then have "ip4IterNext it = (True, y)" by simp
  from ip4IterNext_progress [OF this]
  show ?case by simp
qed

declare ip4IterAll.simps [simp del]

text \<open>The address \<open>a.b.c.d\<close> in network byte order, for stating examples.\<close>

definition dotted :: "8 word \<Rightarrow> 8 word \<Rightarrow> 8 word \<Rightarrow> 8 word \<Rightarrow> ip4Addr" where
  "dotted a b c d =
     ucast a OR push_bit 8 (ucast b) OR push_bit 16 (ucast c) OR push_bit 24 (ucast d)"

subsection \<open>The subnet fragmenter\<close>

text \<open>
  \<^verbatim>\<open>ip4FragmentSubnet\<close>. The field \<^verbatim>\<open>currentAddr\<close> of \<^verbatim>\<open>ip4FragIter\<close> is named
  \<open>currentAddr_f\<close>. The function returns \<^verbatim>\<open>NULL\<close> when the parent is smaller than the
  fragment count (\<open>SubnetTooSmall\<close>). The floating-point steps are exact on these
  values and are modelled on integers: \<^verbatim>\<open>floor(parentSize / fragmentCount)\<close> is integer
  division (the dividend is a power of two of at most \<open>2^32\<close>), \<^verbatim>\<open>llrint(log2(x))\<close> under
  \<^verbatim>\<open>FE_DOWNWARD\<close> is the integer logarithm \<open>ilog2\<close>, and \<^verbatim>\<open>llrint(leftover / smallSize)\<close>
  rounds a quotient down. A fragment count of 0 divides by zero (\<open>ZeroFragments\<close>).
  \<^verbatim>\<open>1U << smallerPow2\<close> shifts a 32-bit \<^verbatim>\<open>unsigned int\<close>: for \<open>smallerPow2 = 32\<close> C leaves
  the shift undefined, which the model reports as \<open>ShiftTooWide\<close>.
\<close>

record ip4FragIter =
  first :: bool
  currentAddr_f :: "64 word"
  smallIncrement :: "64 word"
  smallPrefixLen :: "8 word"
  largeFragmentsRemaining :: "64 word"
  fragmentsRemaining :: "64 word"

datatype fragFailure = SubnetTooSmall | ZeroFragments | ShiftTooWide

fun ilog2 :: "nat \<Rightarrow> nat" where
  "ilog2 n = (if n < 2 then 0 else Suc (ilog2 (n div 2)))"

declare ilog2.simps [simp del]

definition ip4FragmentSubnet :: "ip4Subnet \<Rightarrow> 32 word \<Rightarrow> fragFailure + ip4FragIter" where
  "ip4FragmentSubnet subnet fragmentCount =
     (let parentSize = ip4SubnetSize subnet False in
      if parentSize < ucast fragmentCount then Inl SubnetTooSmall
      else if fragmentCount = 0 then Inl ZeroFragments
      else
        (let idealFragmentSize = unat parentSize div unat fragmentCount;
             smallerPow2 = ilog2 idealFragmentSize
         in if smallerPow2 \<ge> 32 then Inl ShiftTooWide
            else
              (let smallSize = (ucast (push_bit smallerPow2 (1 :: 32 word)) :: 64 word);
                   totalSmallSize = smallSize * ucast fragmentCount;
                   leftoverSize = parentSize - totalSmallSize;
                   largeFragments = leftoverSize div smallSize
               in Inr \<lparr>first = True,
                         currentAddr_f = ucast (ntohl (addr subnet)),
                         smallIncrement = smallSize,
                         smallPrefixLen = 32 - word_of_nat smallerPow2,
                         largeFragmentsRemaining = largeFragments,
                         fragmentsRemaining = ucast fragmentCount\<rparr>)))"

definition ip4FragIterNext :: "ip4FragIter \<Rightarrow> bool \<times> ip4FragIter" where
  "ip4FragIterNext it =
     (if fragmentsRemaining it = 0 then (False, it)
      else if first it then (True, it\<lparr>first := False\<rparr>)
      else
        (let isLarge = (largeFragmentsRemaining it > 0);
             it1 = (if isLarge
                    then it\<lparr>largeFragmentsRemaining := largeFragmentsRemaining it - 1\<rparr>
                    else it);
             it2 = it1\<lparr>currentAddr_f :=
                         currentAddr_f it1 + smallIncrement it1 * (if isLarge then 2 else 1)\<rparr>;
             it3 = it2\<lparr>fragmentsRemaining := fragmentsRemaining it2 - 1\<rparr>
         in (fragmentsRemaining it3 > 0, it3)))"

definition ip4FragIterSubnet :: "ip4FragIter \<Rightarrow> ip4Subnet" where
  "ip4FragIterSubnet it =
     \<lparr>addr = htonl (ucast (currentAddr_f it)),
      prefixLen = (if largeFragmentsRemaining it > 0 then smallPrefixLen it - 1
                   else smallPrefixLen it)\<rparr>"

text \<open>The results of \<open>n\<close> successive calls: what \<^verbatim>\<open>ip4FragIterNext\<close> returned, and the
  subnet \<^verbatim>\<open>ip4FragIterSubnet\<close> reads after it.\<close>

fun ip4FragIterCalls :: "nat \<Rightarrow> ip4FragIter \<Rightarrow> (bool \<times> ip4Subnet) list" where
  "ip4FragIterCalls 0 it = []"
| "ip4FragIterCalls (Suc n) it =
     (let (more, it') = ip4FragIterNext it
      in (more, ip4FragIterSubnet it') # ip4FragIterCalls n it')"

lemma ip4FragIterNext_step:
  assumes "fragmentsRemaining it \<noteq> 0" and "\<not> first it"
  shows "ip4FragIterNext it =
     (fragmentsRemaining it - 1 > 0,
      it\<lparr>largeFragmentsRemaining :=
           (if largeFragmentsRemaining it > 0 then largeFragmentsRemaining it - 1
            else largeFragmentsRemaining it),
         currentAddr_f :=
           currentAddr_f it +
           smallIncrement it * (if largeFragmentsRemaining it > 0 then 2 else 1),
         fragmentsRemaining := fragmentsRemaining it - 1\<rparr>)"
  using assms by (cases "largeFragmentsRemaining it > 0") (simp_all add: ip4FragIterNext_def)

lemma ip4FragIterNext_first:
  assumes "fragmentsRemaining it \<noteq> 0" and "first it"
  shows "ip4FragIterNext it = (True, it\<lparr>first := False\<rparr>)"
  using assms by (simp add: ip4FragIterNext_def)

lemma ip4FragIterNext_measure:
  assumes "ip4FragIterNext it = (True, it')"
  shows "2 * unat (fragmentsRemaining it') + (if first it' then 1 else 0)
           < 2 * unat (fragmentsRemaining it) + (if first it then 1 else (0::nat))"
proof -
  have nz: "fragmentsRemaining it \<noteq> 0"
    using assms by (auto simp: ip4FragIterNext_def split: if_splits)
  then have dec: "unat (fragmentsRemaining it - 1) = unat (fragmentsRemaining it) - 1"
    "0 < unat (fragmentsRemaining it)"
    by (simp_all add: unat_minus_one unat_gt_0)
  show ?thesis
  proof (cases "first it")
    case True
    then show ?thesis using assms ip4FragIterNext_first [OF nz True] by auto
  next
    case False
    then have "fragmentsRemaining it' = fragmentsRemaining it - 1" "first it' = first it"
      using assms ip4FragIterNext_step [OF nz False] by auto
    then show ?thesis using dec False by simp
  qed
qed

text \<open>
  The caller's loop \<^verbatim>\<open>while (ip4FragIterNext(it)) { ip4FragIterSubnet(it, &s); ... }\<close>:
  every fragment, in order.
\<close>

function ip4FragIterAll :: "ip4FragIter \<Rightarrow> ip4Subnet list" where
  "ip4FragIterAll it =
     (case ip4FragIterNext it of
        (False, it') \<Rightarrow> []
      | (True, it') \<Rightarrow> ip4FragIterSubnet it' # ip4FragIterAll it')"
  by pat_completeness auto
termination
proof (relation "measure (\<lambda>it. 2 * unat (fragmentsRemaining it) + (if first it then 1 else 0))",
    goal_cases)
  case 1
  show ?case by simp
next
  case (2 it x y)
  then have "ip4FragIterNext it = (True, y)" by simp
  from ip4FragIterNext_measure [OF this]
  show ?case by simp
qed

declare ip4FragIterAll.simps [simp del]

definition ip4Fragments :: "ip4Subnet \<Rightarrow> 32 word \<Rightarrow> fragFailure + ip4Subnet list" where
  "ip4Fragments subnet fragmentCount =
     (case ip4FragmentSubnet subnet fragmentCount of
        Inl e \<Rightarrow> Inl e
      | Inr it \<Rightarrow> Inr (ip4FragIterAll it))"

section \<open>The setup orchestrator's GraphML callbacks (setup.c)\<close>

text \<open>
  The callbacks \<^verbatim>\<open>gmlAddNode\<close> and \<^verbatim>\<open>gmlAddLink\<close> work on the \<^verbatim>\<open>gmlContext\<close> of one
  \<^verbatim>\<open>setupGraphML\<close> call. Each is a function from the context to its result code, the
  new context and the worker calls it made, in order. What a worker call returns is
  not decided by this code; it is an input (\<open>workerResults\<close>). Node identifiers and
  counts are natural numbers. Of a \<^verbatim>\<open>TopoNode\<close> only the \<^verbatim>\<open>client\<close> flag is read here, and of
  a link its names and weight. The field \<^verbatim>\<open>addr\<close> of \<^verbatim>\<open>gmlNodeState\<close> is named \<open>nsAddr\<close>,
  \<^verbatim>\<open>clientsPerEdge\<close> is named \<open>clientsPerEdge_ctx\<close>, and the fields \<^verbatim>\<open>name\<close> and \<^verbatim>\<open>t\<close> of a
  \<^verbatim>\<open>GmlNode\<close> are named \<open>nodeName\<close> and \<open>nodeT\<close>.
\<close>

record TopoNode =
  client :: bool

record GmlNode =
  nodeName :: string
  nodeT :: TopoNode

record GmlLink =
  sourceName :: string
  targetName :: string
  weight :: rat

text \<open>
  A node state lives in a buffer that \<^verbatim>\<open>flexBufferGrow\<close> enlarges, and a new state has
  only \<^verbatim>\<open>addr\<close> and \<^verbatim>\<open>isClient\<close> written. What the rest of it holds before the program
  writes it is indeterminate in C; the model keeps that apart from every value the
  program wrote: \<^verbatim>\<open>clientSubnet\<close> and each element of the array \<^verbatim>\<open>clientMacs\<close> is \<open>None\<close>
  until it is written.
\<close>

record gmlNodeState =
  nsAddr :: ip4Addr
  isClient :: bool
  clientSubnet :: "ip4Subnet option"
  clientMacs :: "macAddr option list"

text \<open>
  The route planner is another component (\<^verbatim>\<open>routeplanner.h\<close>); the model keeps the node
  count it was created for and the weights set on it. \<^verbatim>\<open>rpSetWeight\<close> on a planner
  that was never created records nothing.
\<close>

record routePlanner =
  plannerNodes :: nat
  plannerWeights :: "(nat \<times> nat \<times> rat) list"

definition rpNewPlanner :: "nat \<Rightarrow> routePlanner" where
  "rpNewPlanner n = \<lparr>plannerNodes = n, plannerWeights = []\<rparr>"

definition rpSetWeight :: "routePlanner option \<Rightarrow> nat \<Rightarrow> nat \<Rightarrow> rat \<Rightarrow> routePlanner option" where
  "rpSetWeight p u v w =
     map_option (\<lambda>r. r\<lparr>plannerWeights := plannerWeights r @ [(u, v, w)]\<rparr>) p"

record gmlContext =
  finishedNodes :: bool
  ignoreNodes :: bool
  ignoreEdges :: bool
  nodeStates :: "gmlNodeState list"
  nodeCount :: nat
  clientNodes :: nat
  gmlToState :: "(string \<times> nat) list"
  clientsPerEdge_ctx :: rat
  currentEdgeIdx :: nat
  currentEdgeClients :: nat
  clientIter :: "ip4FragIter option"
  intfAddrIter :: ip4Iter
  macAddrIter :: macAddr
  routes :: "routePlanner option"

text \<open>
  What the callbacks read from outside the context: \<^verbatim>\<open>globalParams->edgeNodeCount\<close>, the
  block sizes \<^verbatim>\<open>NEEDED_MACS_CLIENT\<close> and \<^verbatim>\<open>NEEDED_MACS_LINK\<close> of the header \<^verbatim>\<open>work.h\<close>
  (taken as parameters), and the rounding mode of the floating-point environment, as
  \<^verbatim>\<open>fegetround\<close> would return it while the document is parsed.
\<close>

record setupEnv =
  edgeNodeCount :: nat
  NEEDED_MACS_CLIENT :: nat
  NEEDED_MACS_LINK :: nat
  fegetround :: roundingMode

record workerResults =
  rAddHost :: int
  rEnsureSystemScaling :: int
  rSetSelfLink :: int
  rAddLink :: int

datatype workCall =
  WorkAddHost nat ip4Addr "macAddr option list" TopoNode
  | WorkEnsureSystemScaling nat nat nat
  | WorkSetSelfLink nat
  | WorkAddLink nat nat ip4Addr ip4Addr "macAddr list"

definition gmlGenerateIp :: "gmlContext \<Rightarrow> gmlContext \<times> ip4Addr option" where
  "gmlGenerateIp ctx =
     (let (more, it) = ip4IterNext (intfAddrIter ctx)
      in if \<not> more then (ctx\<lparr>intfAddrIter := it\<rparr>, None)
         else (ctx\<lparr>intfAddrIter := it\<rparr>, Some (ip4IterAddr it)))"

text \<open>
  \<^verbatim>\<open>gmlNameToState\<close>. The hash table is an association list. For a new node the buffer
  of node states grows by one element, of which only \<^verbatim>\<open>addr\<close> and \<^verbatim>\<open>isClient\<close> are
  written.
\<close>

definition gmlNameToState ::
  "setupEnv \<Rightarrow> gmlContext \<Rightarrow> string \<Rightarrow> TopoNode option \<Rightarrow> gmlContext \<times> nat option" where
  "gmlNameToState env ctx nm nodeOpt =
     (case map_of (gmlToState ctx) nm of
        Some index \<Rightarrow> (ctx, Some index)
      | None \<Rightarrow>
          (case nodeOpt of
             None \<Rightarrow> (ctx, None)
           | Some nd \<Rightarrow>
               (case gmlGenerateIp ctx of
                  (ctx1, None) \<Rightarrow> (ctx1, None)
                | (ctx1, Some newAddr) \<Rightarrow>
                    (let index = nodeCount ctx1
                     in (ctx1\<lparr>nodeCount := nodeCount ctx1 + 1,
                              gmlToState := (nm, index) # gmlToState ctx1,
                              nodeStates := nodeStates ctx1 @
                                [\<lparr>nsAddr = newAddr, isClient = client nd,
                                  clientSubnet = None,
                                  clientMacs = replicate (NEEDED_MACS_CLIENT env) None\<rparr>]\<rparr>,
                         Some index)))))"

definition gmlAddNode ::
  "setupEnv \<Rightarrow> gmlContext \<Rightarrow> GmlNode \<Rightarrow> workerResults
     \<Rightarrow> int \<times> gmlContext \<times> workCall list" where
  "gmlAddNode env ctx nd wr =
     (if ignoreNodes ctx then (0, ctx, [])
      else if finishedNodes ctx then (1, ctx, [])
      else
        (case gmlNameToState env ctx (nodeName nd) (Some (nodeT nd)) of
           (ctx1, None) \<Rightarrow> (1, ctx1, [])
         | (ctx1, Some ident) \<Rightarrow>
             (if client (nodeT nd) then
                (let (ok, next, macs) = macNextAddrs (macAddrIter ctx1) (NEEDED_MACS_CLIENT env);
                     ctx2 = ctx1\<lparr>macAddrIter := next,
                                nodeStates := (nodeStates ctx1)
                                  [ident := (nodeStates ctx1 ! ident)
                                     \<lparr>clientMacs := map Some macs\<rparr>]\<rparr>
                 in if \<not> ok then (1, ctx2, [])
                    else
                      (let ctx3 = ctx2\<lparr>clientNodes := clientNodes ctx2 + 1\<rparr>;
                           state = nodeStates ctx3 ! ident
                       in (rAddHost wr, ctx3,
                           [WorkAddHost ident (nsAddr state) (clientMacs state) (nodeT nd)])))
              else
                (let state = nodeStates ctx1 ! ident
                 in (rAddHost wr, ctx1,
                     [WorkAddHost ident (nsAddr state) (clientMacs state) (nodeT nd)])))))"

definition gmlAddLinkBody ::
  "setupEnv \<Rightarrow> gmlContext \<Rightarrow> GmlLink \<Rightarrow> workerResults \<Rightarrow> workCall list
     \<Rightarrow> int \<times> gmlContext \<times> workCall list" where
  "gmlAddLinkBody env ctx lnk wr calls =
     (case gmlNameToState env ctx (sourceName lnk) None of
        (ctx_s, None) \<Rightarrow> (1, ctx_s, calls)
      | (ctx_s, Some sourceId) \<Rightarrow>
          (case gmlNameToState env ctx_s (targetName lnk) None of
             (ctx, None) \<Rightarrow> (1, ctx, calls)
           | (ctx, Some targetId) \<Rightarrow>
               (let sourceState = nodeStates ctx ! sourceId;
                    targetState = nodeStates ctx ! targetId
                in if sourceId = targetId then
                     (if isClient sourceState
                      then (rSetSelfLink wr, ctx, calls @ [WorkSetSelfLink sourceId])
                      else (0, ctx, calls))
                   else
                     (let (ok, next, macs) =
                            macNextAddrs (macAddrIter ctx) (NEEDED_MACS_LINK env);
                          ctx1 = ctx\<lparr>macAddrIter := next\<rparr>
                      in if \<not> ok then (1, ctx1, calls)
                         else
                           (let calls1 = calls @
                                  [WorkAddLink sourceId targetId (nsAddr sourceState)
                                     (nsAddr targetState) macs];
                                res = rAddLink wr
                            in if res = 0 then
                                 (if weight lnk < 0 then (1, ctx1, calls1)
                                  else
                                    (0,
                                     ctx1\<lparr>routes :=
                                       rpSetWeight
                                         (rpSetWeight (routes ctx1) sourceId targetId (weight lnk))
                                         targetId sourceId (weight lnk)\<rparr>,
                                     calls1))
                               else (res, ctx1, calls1))))))"

definition gmlAddLink ::
  "setupEnv \<Rightarrow> gmlContext \<Rightarrow> GmlLink \<Rightarrow> workerResults
     \<Rightarrow> int \<times> gmlContext \<times> workCall list" where
  "gmlAddLink env ctx lnk wr =
     (if ignoreEdges ctx then (0, ctx, [])
      else if \<not> finishedNodes ctx then
        (let ctx1 = ctx\<lparr>finishedNodes := True\<rparr>
         in if clientNodes ctx1 < edgeNodeCount env then (1, ctx1, [])
            else
              (let worstCaseLinkCount = nodeCount ctx1 * nodeCount ctx1;
                   calls = [WorkEnsureSystemScaling worstCaseLinkCount (nodeCount ctx1)
                              (clientNodes ctx1)];
                   res = rEnsureSystemScaling wr
               in if res \<noteq> 0 then (res, ctx1, calls)
                  else
                    gmlAddLinkBody env
                      (ctx1\<lparr>clientsPerEdge_ctx :=
                              clientsPerEdge (fegetround env) (clientNodes ctx1)
                                (edgeNodeCount env),
                            routes := Some (rpNewPlanner (nodeCount ctx1))\<rparr>)
                      lnk wr calls))
      else gmlAddLinkBody env ctx lnk wr [])"

text \<open>
  Modelled from the spec: \<^verbatim>\<open>gmlParseFile\<close>, the parser entry point that \<^verbatim>\<open>setupGraphML\<close>
  calls, is not among the sources. The specification has the parser invoke the
  callbacks in document order, each running to completion, and has the first fatal
  error abort the stage; so \<open>gmlParse\<close> runs the callbacks over the document's node and
  link events and stops at the first nonzero result.
\<close>

datatype gmlEvent =
  NodeEvent GmlNode workerResults
  | LinkEvent GmlLink workerResults

fun gmlCallback ::
  "setupEnv \<Rightarrow> gmlContext \<Rightarrow> gmlEvent \<Rightarrow> int \<times> gmlContext \<times> workCall list" where
  "gmlCallback env ctx (NodeEvent nd wr) = gmlAddNode env ctx nd wr"
| "gmlCallback env ctx (LinkEvent lnk wr) = gmlAddLink env ctx lnk wr"

fun gmlParse ::
  "setupEnv \<Rightarrow> gmlContext \<Rightarrow> gmlEvent list \<Rightarrow> int \<times> gmlContext \<times> workCall list" where
  "gmlParse env ctx [] = (0, ctx, [])"
| "gmlParse env ctx (e # es) =
     (let (res, ctx1, calls) = gmlCallback env ctx e
      in if res \<noteq> 0 then (res, ctx1, calls)
         else (let (res', ctx2, calls') = gmlParse env ctx1 es
               in (res', ctx2, calls @ calls')))"

text \<open>
  The context \<^verbatim>\<open>setupGraphML\<close> starts parsing with: the designated initialiser (every
  other field zero), the MAC counter advanced once from zero, and the interface
  address iterator in the state \<open>it\<close> it has by then.
\<close>

definition initialContext :: "ip4Iter \<Rightarrow> gmlContext" where
  "initialContext it =
     \<lparr>finishedNodes = False, ignoreNodes = False, ignoreEdges = False,
      nodeStates = [], nodeCount = 0, clientNodes = 0, gmlToState = [],
      clientsPerEdge_ctx = 0, currentEdgeIdx = 0, currentEdgeClients = 0,
      clientIter = None, intfAddrIter = it,
      macAddrIter = snd (macNextAddr (replicate MAC_ADDR_BYTES 0)),
      routes = None\<rparr>"

text \<open>
  The pass loop of \<^verbatim>\<open>setupGraphML\<close> for a source file: one pass, or with \<^verbatim>\<open>twoPass\<close> a
  pass that ignores edges followed by a pass that ignores nodes.
\<close>

definition setupGraphMLParse ::
  "setupEnv \<Rightarrow> bool \<Rightarrow> gmlContext \<Rightarrow> gmlEvent list \<Rightarrow> gmlEvent list
     \<Rightarrow> int \<times> gmlContext \<times> workCall list" where
  "setupGraphMLParse env twoPass ctx pass2 pass1 =
     (if twoPass then
        (let (err, ctx1, calls) = gmlParse env (ctx\<lparr>ignoreEdges := True\<rparr>) pass2
         in if err \<noteq> 0 then (err, ctx1, calls)
            else
              (let ctx2 = ctx1\<lparr>finishedNodes := True, ignoreNodes := True,
                               ignoreEdges := False\<rparr>;
                   (err', ctx3, calls') = gmlParse env ctx2 pass1
               in (err', ctx3, calls @ calls')))
      else gmlParse env ctx pass1)"

text \<open>
  The all-zero MAC address; the worker calls whose MAC block does not contain it; and
  the invariant of the context under which the callbacks keep it out: the counter has
  six octets and is not zero, no node state holds the all-zero address, and the name
  table points into the node states.
\<close>

definition zeroMac :: macAddr where
  "zeroMac = replicate MAC_ADDR_BYTES 0"



text \<open>Concrete inputs for running the callbacks.\<close>

fun isAddLink :: "workCall \<Rightarrow> bool" where
  "isAddLink (WorkAddLink u v a b macs) = True"
| "isAddLink (WorkAddHost ident a macs nd) = False"
| "isAddLink (WorkEnsureSystemScaling l n c) = False"
| "isAddLink (WorkSetSelfLink u) = False"

definition env0 :: setupEnv where
  "env0 = \<lparr>edgeNodeCount = 1, NEEDED_MACS_CLIENT = 2, NEEDED_MACS_LINK = 2,
            fegetround = FE_TONEAREST\<rparr>"

definition it0 :: ip4Iter where
  "it0 = ip4NewIter \<lparr>addr = dotted 10 0 0 0, prefixLen = 30\<rparr> False []"

definition wr0 :: workerResults where
  "wr0 = \<lparr>rAddHost = 0, rEnsureSystemScaling = 0, rSetSelfLink = 0, rAddLink = 0\<rparr>"




definition nodeEv :: "string \<Rightarrow> bool \<Rightarrow> gmlEvent" where
  "nodeEv nm c = NodeEvent \<lparr>nodeName = nm, nodeT = \<lparr>client = c\<rparr>\<rparr> wr0"

definition linkEv :: "string \<Rightarrow> string \<Rightarrow> gmlEvent" where
  "linkEv a b = LinkEvent \<lparr>sourceName = a, targetName = b, weight = 1\<rparr> wr0"

section \<open>The textual form of addresses and subnets (ip.c)\<close>

text \<open>
  \<^verbatim>\<open>ip4GetAddr\<close>, \<^verbatim>\<open>ip4AddrToString\<close>, \<^verbatim>\<open>ip4GetSubnet\<close> and \<^verbatim>\<open>ip4SubnetToString\<close> are
  thin layers over the C library: \<^verbatim>\<open>inet_ntop\<close>, \<^verbatim>\<open>inet_pton\<close>, \<^verbatim>\<open>strchr\<close>, \<^verbatim>\<open>strtol\<close> and
  \<^verbatim>\<open>snprintf\<close>. The library functions are modelled on C strings without the terminating
  NUL, as lists of characters.

  \<open>showNat\<close> is the decimal conversion of \<^verbatim>\<open>%u\<close> (no sign, no padding, no leading zero).
  \<open>isdigit\<close> and \<open>isspace\<close> are the classes of the C locale.
\<close>

definition digitChar :: "nat \<Rightarrow> char" where
  "digitChar d = char_of (48 + d)"

fun showNat :: "nat \<Rightarrow> string" where
  "showNat n = (if n < 10 then [digitChar n] else showNat (n div 10) @ [digitChar (n mod 10)])"

declare showNat.simps [simp del]

definition isdigit :: "char \<Rightarrow> bool" where
  "isdigit ch \<longleftrightarrow> 48 \<le> (of_char ch :: nat) \<and> (of_char ch :: nat) \<le> 57"

definition isspace :: "char \<Rightarrow> bool" where
  "isspace ch \<longleftrightarrow> (of_char ch :: nat) = 32 \<or> (9 \<le> (of_char ch :: nat) \<and> (of_char ch :: nat) \<le> 13)"

text \<open>
  \<^verbatim>\<open>inet_ntop(AF_INET, ...)\<close> prints the four bytes of \<^verbatim>\<open>s_addr\<close> in memory order, which is
  network order; in the 32-bit value as the little-endian host reads it the first byte is the
  least significant one (the same convention as \<open>dotted\<close>). The buffer of
  \<^verbatim>\<open>IP4_ADDR_BUFLEN\<close> bytes is at least \<^verbatim>\<open>INET_ADDRSTRLEN\<close> long (the \<^verbatim>\<open>#error\<close> check at the top
  of ip.c), so the call cannot fail and \<^verbatim>\<open>ip4AddrToString\<close> returns 0.
\<close>

definition addrOctets :: "ip4Addr \<Rightarrow> 8 word list" where
  "addrOctets a = [ucast a, ucast (drop_bit 8 a), ucast (drop_bit 16 a), ucast (drop_bit 24 a)]"

definition inet_ntop4 :: "ip4Addr \<Rightarrow> string" where
  "inet_ntop4 a =
     (case addrOctets a of
        [b0, b1, b2, b3] \<Rightarrow>
          showNat (unat b0) @ ''.'' @ showNat (unat b1) @ ''.'' @ showNat (unat b2) @ ''.'' @
          showNat (unat b3)
      | _ \<Rightarrow> [])"

text \<open>
  \<^verbatim>\<open>inet_pton(AF_INET, ...)\<close> accepts exactly four decimal numbers of at most three digits,
  each at most 255 and without a leading zero, separated by single dots. The loop keeps the
  flag \<^verbatim>\<open>saw_digit\<close>, the count of numbers started, the finished numbers and the number being
  read. A failure (return value other than 1) is \<open>None\<close>.
\<close>

fun inet_pton4_loop :: "string \<Rightarrow> bool \<Rightarrow> nat \<Rightarrow> nat list \<Rightarrow> nat \<Rightarrow> nat list option" where
  "inet_pton4_loop [] saw_digit octets done cur =
     (if octets < 4 then None else Some (done @ [cur]))"
| "inet_pton4_loop (ch # src) saw_digit octets done cur =
     (if isdigit ch then
        (let new = cur * 10 + (of_char ch - 48)
         in if saw_digit \<and> cur = 0 then None
            else if new > 255 then None
            else if \<not> saw_digit then
              (if octets + 1 > 4 then None
               else inet_pton4_loop src True (octets + 1) done new)
            else inet_pton4_loop src True octets done new)
      else if ch = CHR ''.'' \<and> saw_digit then
        (if octets = 4 then None
         else inet_pton4_loop src False octets (done @ [cur]) 0)
      else None)"

definition inet_pton4 :: "string \<Rightarrow> ip4Addr option" where
  "inet_pton4 src =
     (case inet_pton4_loop src False 0 [] 0 of
        Some [b0, b1, b2, b3] \<Rightarrow>
          Some (dotted (of_nat b0) (of_nat b1) (of_nat b2) (of_nat b3))
      | _ \<Rightarrow> None)"

definition ip4GetAddr :: "string \<Rightarrow> ip4Addr option" where
  "ip4GetAddr str = inet_pton4 str"

definition ip4AddrToString :: "ip4Addr \<Rightarrow> int \<times> string" where
  "ip4AddrToString a = (0, inet_ntop4 a)"

text \<open>
  \<^verbatim>\<open>strchr\<close> followed by \<^verbatim>\<open>*slash = '\0'\<close> splits the copy of the string at its first slash:
  \<open>strchr_split\<close> returns the text before it and the text after it, or \<open>None\<close> when there is
  no slash.

  \<^verbatim>\<open>strtol(suffix, &end, 10)\<close> skips white space, reads an optional sign and the longest run
  of digits, and clamps the value to the range of \<^verbatim>\<open>long\<close> (64 bits). \<open>strtol10\<close> returns the
  value, whether any digit was converted (\<^verbatim>\<open>end != suffix\<close>) and the text left at \<^verbatim>\<open>end\<close>.
\<close>

fun strchr_split :: "string \<Rightarrow> char \<Rightarrow> (string \<times> string) option" where
  "strchr_split [] c = None"
| "strchr_split (x # xs) c =
     (if x = c then Some ([], xs)
      else map_option (\<lambda>(before, rest). (x # before, rest)) (strchr_split xs c))"

definition LONG_MAX :: int where
  "LONG_MAX = 2 ^ 63 - 1"

definition strtol10 :: "string \<Rightarrow> int \<times> bool \<times> string" where
  "strtol10 s =
     (let s1 = dropWhile isspace s;
          negative = (s1 \<noteq> [] \<and> hd s1 = CHR ''-'');
          s2 = (if s1 \<noteq> [] \<and> (hd s1 = CHR ''-'' \<or> hd s1 = CHR ''+'') then tl s1 else s1);
          ds = takeWhile isdigit s2;
          rest = dropWhile isdigit s2;
          v = foldl (\<lambda>acc ch. acc * 10 + int (of_char ch - 48)) 0 ds
      in if ds = [] then (0, False, s)
         else if negative then (if v > LONG_MAX + 1 then - LONG_MAX - 1 else - v, True, rest)
         else (if v > LONG_MAX then LONG_MAX else v, True, rest))"

text \<open>
  \<^verbatim>\<open>ip4SubnetToString\<close> returns its error code together with the contents of the buffer. The
  length \<^verbatim>\<open>IP4_CIDR_BUFLEN\<close> of the buffer is defined in ip.h and is a parameter here;
  \<^verbatim>\<open>snprintf\<close> returns the length of the full text, and the result does not fit when that
  length reaches \<^verbatim>\<open>IP4_CIDR_BUFLEN\<close>.
\<close>

definition ENOSPC :: int where
  "ENOSPC = 28"

definition ip4SubnetToString :: "nat \<Rightarrow> ip4Subnet \<Rightarrow> int \<times> string" where
  "ip4SubnetToString IP4_CIDR_BUFLEN subnet =
     (let (res, ip) = ip4AddrToString (addr subnet)
      in if res \<noteq> 0 then (res, ip)
         else
           (let out = ip @ ''/'' @ showNat (unat (prefixLen subnet))
            in if length out \<ge> IP4_CIDR_BUFLEN then (ENOSPC, ''(print fail)'')
               else (0, out)))"

text \<open>
  \<^verbatim>\<open>ip4GetSubnet\<close> returns \<open>None\<close> where the C function returns \<^verbatim>\<open>false\<close>. The cast
  \<^verbatim>\<open>(uint8_t)prefixLen\<close> is \<open>word_of_int\<close>, and the address is then cut down to the network
  part.
\<close>

definition ip4GetSubnet :: "string \<Rightarrow> ip4Subnet option" where
  "ip4GetSubnet str =
     (case strchr_split str CHR ''/'' of
        None \<Rightarrow> None
      | Some (strCopy, suffix) \<Rightarrow>
          (case ip4GetAddr strCopy of
             None \<Rightarrow> None
           | Some a \<Rightarrow>
               (let (prefixLen', converted, rest) = strtol10 suffix
                in if \<not> converted \<or> rest \<noteq> [] \<or> prefixLen' < 0 \<or> prefixLen' > 32 then None
                   else
                     (let subnet = \<lparr>addr = a, prefixLen = word_of_int prefixLen'\<rparr>
                      in Some (subnet\<lparr>addr := addr subnet AND ip4SubnetMask subnet\<rparr>)))))"

text \<open>
  A subnet is canonical when its prefix length is at most 32 and its address has no bit set
  in the host part.
\<close>

definition canonical :: "ip4Subnet \<Rightarrow> bool" where
  "canonical s \<longleftrightarrow> unat (prefixLen s) \<le> 32 \<and> addr s AND ip4HostMask s = 0"

section \<open>Theorems about the GraphML driver\<close>

subsection \<open>The dead flag\<close>

lemma graphEvent_dead: "dead state \<Longrightarrow> graphEvent state e = (state, [])"
  by (cases e) (simp_all add: graphStartElement_def graphEndElement_def graphCharacters_def)

lemma graphEvents_dead: "dead state \<Longrightarrow> graphEvents state evs = (state, [])"
  by (induction evs) (simp_all add: graphEvent_dead)

text \<open>
  Claim C9. Once the dead flag is set, a start-element, an end-element and a characters
  event each leave the whole parser state as it is (the reported diagnostics included)
  and invoke no node or link callback; so does any sequence of events.
\<close>

theorem dead_parser_ignores_events:
  assumes "dead state"
  shows "graphStartElement state name atts = (state, []) \<and>
         graphEndElement state name = (state, []) \<and>
         graphCharacters state ch = state \<and>
         graphEvents state evs = (state, [])"
  using assms
  by (simp add: graphStartElement_def graphEndElement_def graphCharacters_def
      graphEvents_dead)

theorem dead_parser_ignores_events_witness:
  "dead (graphFatalError mem0 NotGraphML) \<and>
   graphStartElement (graphFatalError mem0 NotGraphML) ''node'' [(''id'', ''n1'')]
     = (graphFatalError mem0 NotGraphML, []) \<and>
   graphEndElement (graphFatalError mem0 NotGraphML) ''node''
     = (graphFatalError mem0 NotGraphML, []) \<and>
   graphCharacters (graphFatalError mem0 NotGraphML) ''client''
     = graphFatalError mem0 NotGraphML \<and>
   graphEvents (graphFatalError mem0 NotGraphML) (typedNodeDoc ''client'')
     = (graphFatalError mem0 NotGraphML, [])"
proof -
  have d: "dead (graphFatalError mem0 NotGraphML)"
    by (simp add: graphFatalError_def)
  show ?thesis
    using d dead_parser_ignores_events [of "graphFatalError mem0 NotGraphML" "''node''"
        "[(''id'', ''n1'')]" "''client''" "typedNodeDoc ''client''", OF d]
    by simp
qed

text \<open>
  A handler reports at most one diagnostic, and only together with setting the flag;
  so a whole parse reports at most one.
\<close>

definition oneMore :: "GraphParserState \<Rightarrow> GraphParserState \<Rightarrow> bool" where
  "oneMore s s' \<longleftrightarrow>
     (diagnostics s' = diagnostics s \<and> dead s' = dead s) \<or>
     ((\<exists>d. diagnostics s' = diagnostics s @ [d]) \<and> dead s')"

lemma oneMore_refl: "oneMore s s"
  by (simp add: oneMore_def)

lemma oneMore_fatal: "oneMore s (graphFatalError s d)"
  by (simp add: oneMore_def graphFatalError_def)

lemma setNodeAttr_diag: "oneMore s (setNodeAttr s n i t)"
  by (simp add: setNodeAttr_def oneMore_def graphFatalError_def)

lemma setEdgeAttr_diag: "oneMore s (setEdgeAttr s n i t)"
  by (simp add: setEdgeAttr_def oneMore_def graphFatalError_def)

lemma enterUnknown_diag: "oneMore s s' \<Longrightarrow> oneMore s (enterUnknown u s')"
  by (simp add: enterUnknown_def oneMore_def)

lemma startTopLevel_diag: "oneMore s (startTopLevel s n atts)"
  using setNodeAttr_diag [of s] setEdgeAttr_diag [of s]
  by (auto simp: startTopLevel_def Let_def oneMore_def enterUnknown_def
      split: option.splits)

lemma startGraph_diag: "oneMore s (startGraph s n atts)"
  by (auto simp: startGraph_def Let_def oneMore_def enterUnknown_def graphFatalError_def
      split: option.splits)

lemma startNodeOrEdge_diag: "oneMore s (startNodeOrEdge s n atts)"
  by (auto simp: startNodeOrEdge_def Let_def oneMore_def enterUnknown_def
      graphFatalError_def split: option.splits)

lemma applyNodeData_diag:
  "diagnostics (applyNodeData s v) = diagnostics s \<and> dead (applyNodeData s v) = dead s
   \<and> dataMode (applyNodeData s v) = dataMode s"
  by (simp add: applyNodeData_def Let_def)

lemma applyEdgeData_diag:
  "diagnostics (applyEdgeData s v) = diagnostics s \<and> dead (applyEdgeData s v) = dead s
   \<and> dataMode (applyEdgeData s v) = dataMode s"
  by (simp add: applyEdgeData_def Let_def)

lemma graphEndElement_diag: "oneMore s (fst (graphEndElement s n))"
proof (cases "dead s")
  case True
  then show ?thesis by (simp add: graphEndElement_def oneMore_def)
next
  case False
  show ?thesis
  proof (cases "mode s")
    case GpData
    show ?thesis
      using False GpData applyNodeData_diag [of s "dataValue s"]
        applyEdgeData_diag [of s "dataValue s"]
      by (cases "dataMode s")
        (simp_all add: graphEndElement_def Let_def oneMore_def graphFatalError_def)
  qed (use False in \<open>simp_all add: graphEndElement_def oneMore_def graphFatalError_def\<close>)
qed

lemma graphStartElement_diag: "oneMore s (fst (graphStartElement s n atts))"
proof (cases "dead s")
  case True
  then show ?thesis by (simp add: graphStartElement_def oneMore_def)
next
  case False
  show ?thesis
  proof (cases "mode s")
    case GpInitial
    then show ?thesis
      using False
      by (simp add: graphStartElement_def oneMore_def enterUnknown_def graphFatalError_def
          split: option.splits)
  qed (use False startTopLevel_diag [of s n atts] startGraph_diag [of s n atts]
        startNodeOrEdge_diag [of s n atts]
       in \<open>simp_all add: graphStartElement_def oneMore_def enterUnknown_def\<close>)
qed

lemma graphCharacters_diag: "oneMore s (graphCharacters s ch)"
  by (simp add: graphCharacters_def Let_def oneMore_def)

lemma graphEvent_diag: "oneMore s (fst (graphEvent s e))"
  by (cases e)
    (simp_all add: graphStartElement_diag graphEndElement_diag graphCharacters_diag)

lemma graphEvents_diag:
  "\<not> dead s \<Longrightarrow> diagnostics s = [] \<Longrightarrow>
   length (diagnostics (fst (graphEvents s evs))) \<le> 1"
proof (induction evs arbitrary: s)
  case Nil
  then show ?case by simp
next
  case (Cons e evs)
  obtain s' cbs where e: "graphEvent s e = (s', cbs)"
    by (cases "graphEvent s e")
  have om: "oneMore s s'"
    using graphEvent_diag [of s e] e by simp
  show ?case
  proof (cases "dead s'")
    case True
    then have "graphEvents s' evs = (s', [])"
      by (rule graphEvents_dead)
    moreover have "length (diagnostics s') \<le> 1"
      using om Cons.prems by (auto simp: oneMore_def)
    ultimately show ?thesis
      using e by simp
  next
    case False
    then have "diagnostics s' = []"
      using om Cons.prems by (auto simp: oneMore_def)
    from Cons.IH [OF False this] show ?thesis
      using e by (cases "graphEvents s' evs") simp
  qed
qed

lemma parse_reports_at_most_one:
  "length (diagnostics (fst (graphEvents (initGraphParserState mem ct) evs))) \<le> 1"
  by (rule graphEvents_diag) (simp_all add: initGraphParserState_def)

subsection \<open>The client flag of a node\<close>

text \<open>
  When a \<^verbatim>\<open>node\<close> element with an identifier opens, the client flag starts as true
  when no client type is configured and as false when one is.
\<close>

lemma node_default_client:
  assumes "\<not> dead state" and "mode state = GpGraph"
    and "lastAtt ''id'' atts None = Some ident"
  shows "Client (node (fst (graphStartElement state ''node'' atts)))
           = (clientType state = None)"
  using assms
  by (simp add: graphStartElement_def startGraph_def enterUnknown_def Let_def)

text \<open>
  When the \<^verbatim>\<open>data\<close> element of the declared \<^verbatim>\<open>type\<close> key closes inside a node, the
  flag becomes true exactly when the text is the literal \<^verbatim>\<open>client\<close>; the configured
  client type plays no part.
\<close>

lemma type_data_sets_client:
  assumes "\<not> dead state" and "mode state = GpData" and "dataMode state = GpNode"
    and "typeId (nodeAttribs state) = Some (data (dataKey state))"
  shows "Client (node (fst (graphEndElement state name)))
           = (dataValue state = ''client'')"
  using assms
  by (simp add: graphEndElement_def applyNodeData_def Let_def)

text \<open>
  Claim C5. The first half of the claim holds (\<open>node_default_client\<close>). The second half
  does not: with the client type configured as \<^verbatim>\<open>relay\<close>, a node whose \<^verbatim>\<open>type\<close> data
  is \<^verbatim>\<open>relay\<close> is delivered with the client flag false, and a node whose \<^verbatim>\<open>type\<close> data
  is \<^verbatim>\<open>client\<close> is delivered with the flag true.
\<close>

theorem type_data_compared_with_literal_client:
  "snd (graphEvents (initGraphParserState mem0 (Some ''relay'')) (typedNodeDoc ''relay''))
     = [NewNode \<lparr>Id_n = ''n1'', Client = False, PacketLoss = Zero, BandwidthUp = Zero,
                  BandwidthDown = Zero\<rparr>] \<and>
   snd (graphEvents (initGraphParserState mem0 (Some ''relay'')) (typedNodeDoc ''client''))
     = [NewNode \<lparr>Id_n = ''n1'', Client = True, PacketLoss = Zero, BandwidthUp = Zero,
                  BandwidthDown = Zero\<rparr>]"
  by (simp add: parser_defs)

section \<open>Theorems about the MAC generator\<close>

lemma macValue_snoc: "macValue (xs @ [x]) = macValue xs * 256 + unat x"
  by (simp add: macValue_def)

lemma macValue_Nil: "macValue [] = 0"
  by (simp add: macValue_def)

lemma macValue_bound: "macValue xs < 256 ^ length xs"
proof (induction xs rule: rev_induct)
  case Nil
  then show ?case by (simp add: macValue_Nil)
next
  case (snoc x xs)
  have "unat x < 256" using unsigned_less [of x, where ?'a = nat] by simp
  then have "macValue xs * 256 + unat x < (macValue xs + 1) * 256" by simp
  also have "\<dots> \<le> 256 ^ length xs * 256"
    using snoc.IH by (intro mult_le_mono1) simp
  finally show ?case by (simp add: macValue_snoc)
qed

lemma macNextAddrLoop_spec:
  "j \<le> length octets \<Longrightarrow> macNextAddrLoop j octets = (ok, octets') \<Longrightarrow>
   length octets' = length octets \<and> drop j octets' = drop j octets \<and>
   macValue (take j octets') = (macValue (take j octets) + 1) mod 256 ^ j \<and>
   (ok \<longleftrightarrow> macValue (take j octets) + 1 < 256 ^ j)"
proof (induction j arbitrary: octets ok octets')
  case 0
  then show ?case by (simp add: macValue_Nil)
next
  case (Suc j)
  let ?x = "octets ! j"
  let ?m = "macValue (take j octets)"
  have jl: "j < length octets" using Suc.prems(1) by simp
  have tk: "take (Suc j) octets = take j octets @ [?x]"
    using jl by (simp add: take_Suc_conv_app_nth)
  have mb: "?m < 256 ^ j" using macValue_bound [of "take j octets"] jl by simp
  have xb: "unat ?x < 256" using unsigned_less [of ?x, where ?'a = nat] by simp
  show ?case
  proof (cases "?x + 1 = 0")
    case False
    then have res: "ok = True" "octets' = octets[j := ?x + 1]"
      using Suc.prems(2) jl by (simp_all add: Let_def)
    have ux: "unat (?x + 1) = unat ?x + 1"
      using False unatSuc [of ?x] by (simp add: add.commute)
    have tk': "take (Suc j) octets' = take j octets @ [?x + 1]"
      using jl res by (simp add: take_Suc_conv_app_nth)
    have lt: "?m * 256 + unat ?x + 1 < 256 ^ Suc j"
    proof -
      have "unat ?x + 1 < 256"
        using ux unsigned_less [of "?x + 1", where ?'a = nat] by simp
      then have "?m * 256 + unat ?x + 1 < (?m + 1) * 256" by simp
      also have "\<dots> \<le> 256 ^ j * 256" using mb by (intro mult_le_mono1) simp
      finally show ?thesis by simp
    qed
    have v': "macValue (take (Suc j) octets') = ?m * 256 + unat ?x + 1"
      by (simp only: tk' macValue_snoc ux)
    have v0: "macValue (take (Suc j) octets) = ?m * 256 + unat ?x"
      by (simp only: tk macValue_snoc)
    have "length octets' = length octets" "drop (Suc j) octets' = drop (Suc j) octets"
      using res by simp_all
    then show ?thesis
      using res(1) lt by (simp only: v' v0) simp
  next
    case True
    then have x255: "unat ?x = 255"
      using max_word_wrap [of ?x]
      by (simp add: unsigned_minus_1_eq_mask mask_eq_exp_minus_1)
    let ?o1 = "octets[j := ?x + 1]"
    have rec: "macNextAddrLoop j ?o1 = (ok, octets')"
      using Suc.prems(2) True jl by (simp add: Let_def)
    have l1: "j \<le> length ?o1" using jl by simp
    from Suc.IH [OF l1 rec]
    have ih: "length octets' = length octets" "drop j octets' = drop j ?o1"
      "macValue (take j octets') = (?m + 1) mod 256 ^ j" "ok \<longleftrightarrow> ?m + 1 < 256 ^ j"
      by simp_all
    have nth: "octets' ! j = 0"
    proof -
      have "octets' ! j = hd (drop j octets')"
        using ih(1) jl by (simp add: hd_drop_conv_nth)
      also have "\<dots> = hd (drop j ?o1)" using ih(2) by simp
      also have "\<dots> = ?o1 ! j" using jl by (simp add: hd_drop_conv_nth)
      finally show ?thesis using True jl by simp
    qed
    have dr: "drop (Suc j) octets' = drop (Suc j) octets"
    proof -
      have "drop (Suc j) octets' = drop 1 (drop j octets')" by simp
      also have "\<dots> = drop 1 (drop j ?o1)" using ih(2) by simp
      also have "\<dots> = drop (Suc j) octets" by simp
      finally show ?thesis .
    qed
    have tk': "take (Suc j) octets' = take j octets' @ [0]"
      using jl ih(1) nth by (simp add: take_Suc_conv_app_nth)
    have v: "(?m * 256 + 255 + 1) mod 256 ^ Suc j = ((?m + 1) mod 256 ^ j) * 256"
    proof -
      have a: "?m * 256 + 255 + 1 = (?m + 1) * 256" by simp
      have b: "(256::nat) ^ Suc j = 256 ^ j * 256" by simp
      have "((?m + 1) * 256) mod (256 ^ j * 256) = ((?m + 1) mod 256 ^ j) * 256"
        by (rule mult_mod_left [symmetric])
      then show ?thesis by (simp only: a b)
    qed
    have v': "macValue (take (Suc j) octets') = ((?m + 1) mod 256 ^ j) * 256"
      by (simp only: tk' macValue_snoc ih(3)) simp
    have v0: "macValue (take (Suc j) octets) = ?m * 256 + 255"
      by (simp only: tk macValue_snoc x255)
    have "(?m + 1) * 256 < 256 ^ j * 256 \<longleftrightarrow> ?m + 1 < 256 ^ j"
      by (rule mult_less_cancel2 [THEN trans]) simp
    moreover have "?m * 256 + 255 + 1 = (?m + 1) * 256" by simp
    moreover have "(256::nat) ^ Suc j = 256 ^ j * 256" by simp
    ultimately have "ok \<longleftrightarrow> ?m * 256 + 255 + 1 < 256 ^ Suc j"
      using ih(4) by (simp only:)
    then show ?thesis
      using ih(1) dr v by (simp only: v' v0)
  qed
qed

lemma macNextAddr_spec:
  assumes "length v = MAC_ADDR_BYTES" and "macNextAddr v = (ok, v')"
  shows "length v' = MAC_ADDR_BYTES \<and> macValue v' = (macValue v + 1) mod 2 ^ 48 \<and>
         (ok \<longleftrightarrow> macValue v + 1 < 2 ^ 48)"
proof -
  have "MAC_ADDR_BYTES \<le> length v" using assms(1) by simp
  from macNextAddrLoop_spec [OF this assms(2) [unfolded macNextAddr_def]]
  have r: "length v' = length v"
    "macValue (take MAC_ADDR_BYTES v') = (macValue (take MAC_ADDR_BYTES v) + 1) mod 256 ^ MAC_ADDR_BYTES"
    "ok \<longleftrightarrow> macValue (take MAC_ADDR_BYTES v) + 1 < 256 ^ MAC_ADDR_BYTES"
    by simp_all
  have t: "take MAC_ADDR_BYTES v' = v'" "take MAC_ADDR_BYTES v = v"
    using r(1) assms(1) by simp_all
  have p: "(256::nat) ^ MAC_ADDR_BYTES = 2 ^ 48"
    by (simp add: MAC_ADDR_BYTES_def)
  show ?thesis
    using r assms(1) unfolding t p by simp
qed

lemma macNextAddrsLoop_spec:
  "length v = MAC_ADDR_BYTES \<Longrightarrow> macNextAddrsLoop n v buf u = (ok, v', buf') \<Longrightarrow>
   length v' = MAC_ADDR_BYTES \<and> macValue v' = (macValue v + n) mod 2 ^ 48 \<and>
   length buf' = length buf + n \<and> take (length buf) buf' = buf \<and>
   (\<forall>i<n. length (buf' ! (length buf + i)) = MAC_ADDR_BYTES \<and>
          macValue (buf' ! (length buf + i)) = (macValue v + i) mod 2 ^ 48) \<and>
   (0 < n \<longrightarrow> buf' ! length buf = v) \<and>
   (ok \<longleftrightarrow> u \<and> (\<forall>i<n. (macValue v + i) mod 2 ^ 48 + 1 < 2 ^ 48))"
proof (induction n arbitrary: v buf u)
  case 0
  have "macValue v < 2 ^ 48"
    using macValue_bound [of v] 0(1) by (simp add: MAC_ADDR_BYTES_def)
  then show ?case using 0 by simp
next
  case (Suc n)
  obtain ok1 v1 where s1: "macNextAddr v = (ok1, v1)" by (cases "macNextAddr v")
  from macNextAddr_spec [OF Suc.prems(1) s1]
  have v1: "length v1 = MAC_ADDR_BYTES" "macValue v1 = (macValue v + 1) mod 2 ^ 48"
    "ok1 \<longleftrightarrow> macValue v + 1 < 2 ^ 48" by simp_all
  have rec: "macNextAddrsLoop n v1 (buf @ [v]) (if \<not> ok1 then False else u) = (ok, v', buf')"
    using Suc.prems(2) s1 by simp
  from Suc.IH [OF v1(1) rec]
  have ih: "length v' = MAC_ADDR_BYTES" "macValue v' = (macValue v1 + n) mod 2 ^ 48"
    "length buf' = length (buf @ [v]) + n" "take (length (buf @ [v])) buf' = buf @ [v]"
    "\<forall>i<n. length (buf' ! (length (buf @ [v]) + i)) = MAC_ADDR_BYTES \<and>
          macValue (buf' ! (length (buf @ [v]) + i)) = (macValue v1 + i) mod 2 ^ 48"
    "ok \<longleftrightarrow> (if \<not> ok1 then False else u) \<and> (\<forall>i<n. (macValue v1 + i) mod 2 ^ 48 + 1 < 2 ^ 48)"
    by simp_all
  have shift: "(macValue v1 + i) mod 2 ^ 48 = (macValue v + Suc i) mod 2 ^ 48" for i
    by (simp add: v1(2) mod_simps)
  have vb: "macValue v < 2 ^ 48"
    using macValue_bound [of v] Suc.prems(1) by (simp add: MAC_ADDR_BYTES_def)
  have at: "buf' ! length buf = v"
  proof -
    have "buf' ! length buf = take (length (buf @ [v])) buf' ! length buf" by simp
    also have "\<dots> = v" by (simp only: ih(4)) simp
    finally show ?thesis .
  qed
  have tk: "take (length buf) buf' = buf"
  proof -
    have "take (length buf) buf' = take (length buf) (take (length (buf @ [v])) buf')"
      by (simp add: min_def)
    also have "\<dots> = buf" by (simp only: ih(4)) simp
    finally show ?thesis .
  qed
  have elems: "length (buf' ! (length buf + i)) = MAC_ADDR_BYTES \<and>
          macValue (buf' ! (length buf + i)) = (macValue v + i) mod 2 ^ 48" if "i < Suc n" for i
  proof (cases i)
    case 0
    then show ?thesis using at Suc.prems(1) vb by simp
  next
    case (Suc k)
    then have "k < n" using that by simp
    with ih(5) show ?thesis using Suc shift [of k] by simp
  qed
  have okk: "ok \<longleftrightarrow> u \<and> (\<forall>i<Suc n. (macValue v + i) mod 2 ^ 48 + 1 < 2 ^ 48)"
  proof -
    have "(\<forall>i<Suc n. (macValue v + i) mod 2 ^ 48 + 1 < 2 ^ 48) \<longleftrightarrow>
          (macValue v + 0) mod 2 ^ 48 + 1 < 2 ^ 48 \<and> (\<forall>i<n. (macValue v + Suc i) mod 2 ^ 48 + 1 < 2 ^ 48)"
      by (rule All_less_Suc2)
    moreover have "(\<forall>i<n. (macValue v1 + i) mod 2 ^ 48 + 1 < 2 ^ 48) \<longleftrightarrow>
          (\<forall>i<n. (macValue v + Suc i) mod 2 ^ 48 + 1 < 2 ^ 48)"
      by (simp only: shift)
    ultimately show ?thesis using ih(6) v1(3) vb by auto
  qed
  have nv: "macValue v' = (macValue v + Suc n) mod 2 ^ 48"
    using ih(2) shift [of n] by simp
  show ?case
    using ih(1) nv ih(3) tk elems at okk by simp
qed

lemma no_wrap_iff:
  assumes "m < 2 ^ 48"
  shows "(\<forall>i<k. (m + i) mod 2 ^ 48 + 1 < (2::nat) ^ 48) \<longleftrightarrow> m + k < 2 ^ 48"
proof
  assume all: "\<forall>i<k. (m + i) mod 2 ^ 48 + 1 < (2::nat) ^ 48"
  show "m + k < 2 ^ 48"
  proof (rule ccontr)
    assume "\<not> m + k < 2 ^ 48"
    then have i: "2 ^ 48 - 1 - m < k" using assms by simp
    have "(m + (2 ^ 48 - 1 - m)) mod 2 ^ 48 = 2 ^ 48 - (1::nat)"
      using assms by simp
    with all i show False by fastforce
  qed
next
  assume "m + k < 2 ^ 48"
  then show "\<forall>i<k. (m + i) mod 2 ^ 48 + 1 < (2::nat) ^ 48" by simp
qed

text \<open>
  Claim C6, as amended. For a counter \<open>v\<close> of six octets and \<open>k \<ge> 1\<close>, \<^verbatim>\<open>macNextAddrs\<close>
  writes \<open>k\<close> addresses, the first being \<open>v\<close> and the \<open>i\<close>-th having the value
  \<open>(v + i) mod 2^48\<close>. It returns true exactly when none of the \<open>k\<close> increments starts
  from the all-ones address, that is when \<open>v + k < 2^48\<close>. The addresses written are
  strictly increasing when no increment but possibly the last one wraps
  (\<open>v + k \<le> 2^48\<close>), in particular whenever the call returns true.
\<close>

theorem macNextAddrs_block:
  assumes "length v = MAC_ADDR_BYTES" and "1 \<le> k"
    and "macNextAddrs v k = (ok, v', buf)"
  shows "length buf = k \<and> buf ! 0 = v \<and>
         (\<forall>i<k. length (buf ! i) = MAC_ADDR_BYTES \<and>
                macValue (buf ! i) = (macValue v + i) mod 2 ^ 48) \<and>
         (ok \<longleftrightarrow> (\<forall>i<k. macValue (buf ! i) \<noteq> 2 ^ 48 - 1)) \<and>
         (ok \<longleftrightarrow> macValue v + k < 2 ^ 48) \<and>
         (macValue v + k \<le> 2 ^ 48 \<longrightarrow> sorted_wrt (<) (map macValue buf)) \<and>
         length v' = MAC_ADDR_BYTES \<and> macValue v' = (macValue v + k) mod 2 ^ 48"
proof -
  have vb: "macValue v < 2 ^ 48"
    using macValue_bound [of v] assms(1) by (simp add: MAC_ADDR_BYTES_def)
  from macNextAddrsLoop_spec [OF assms(1) assms(3) [unfolded macNextAddrs_def]]
  have r: "length v' = MAC_ADDR_BYTES" "macValue v' = (macValue v + k) mod 2 ^ 48"
    "length buf = k"
    "\<forall>i<k. length (buf ! i) = MAC_ADDR_BYTES \<and>
           macValue (buf ! i) = (macValue v + i) mod 2 ^ 48"
    "buf ! 0 = v"
    "ok \<longleftrightarrow> (\<forall>i<k. (macValue v + i) mod 2 ^ 48 + 1 < 2 ^ 48)"
    using assms(2) by simp_all
  have ok1: "ok \<longleftrightarrow> macValue v + k < 2 ^ 48"
    using r(6) no_wrap_iff [OF vb, of k] by simp
  have ok2: "ok \<longleftrightarrow> (\<forall>i<k. macValue (buf ! i) \<noteq> 2 ^ 48 - 1)"
  proof -
    have "(macValue v + i) mod 2 ^ 48 + 1 < (2::nat) ^ 48 \<longleftrightarrow>
          (macValue v + i) mod 2 ^ 48 \<noteq> 2 ^ 48 - 1" for i
    proof -
      have "(macValue v + i) mod 2 ^ 48 < (2::nat) ^ 48" by simp
      then show ?thesis by linarith
    qed
    then show ?thesis using r(6) r(4) by simp
  qed
  have srt: "sorted_wrt (<) (map macValue buf)" if le: "macValue v + k \<le> 2 ^ 48"
  proof -
    have "macValue (buf ! i) = macValue v + i" if "i < k" for i
      using r(4) that le by simp
    then show ?thesis
      using r(3) by (simp add: sorted_wrt_iff_nth_less)
  qed
  show ?thesis
    using r(1-5) ok1 ok2 srt by simp
qed

lemma macNextAddrLoop_numeral:
  "macNextAddrLoop (numeral n) octets =
     (let octets' = octets[pred_numeral n := octets ! pred_numeral n + 1]
      in if octets' ! pred_numeral n \<noteq> 0 then (True, octets')
         else macNextAddrLoop (pred_numeral n) octets')"
  by (simp add: numeral_eq_Suc)

lemma macNextAddrsLoop_numeral:
  "macNextAddrsLoop (numeral n) nextAddr buffer unwrapped =
     (let (ok, nextAddr') = macNextAddr nextAddr
      in macNextAddrsLoop (pred_numeral n) nextAddr' (buffer @ [nextAddr])
           (if \<not> ok then False else unwrapped))"
  by (simp add: numeral_eq_Suc)

lemmas mac_eval =
  macNextAddrs_def macNextAddr_def MAC_ADDR_BYTES_def macNextAddrLoop_numeral
  macNextAddrsLoop_numeral

theorem macNextAddrs_block_witness:
  "length [0, 0, 0, 0, 0, 1 :: 8 word] = MAC_ADDR_BYTES \<and> (1::nat) \<le> 2 \<and>
   macNextAddrs [0, 0, 0, 0, 0, 1] 2
     = (True, [0, 0, 0, 0, 0, 3], [[0, 0, 0, 0, 0, 1], [0, 0, 0, 0, 0, 2]]) \<and>
   sorted_wrt (<) (map macValue [[0, 0, 0, 0, 0, 1], [0, 0, 0, 0, 0, 2]]) \<and>
   macValue [0, 0, 0, 0, 0, 3] = (macValue [0, 0, 0, 0, 0, 1] + 2) mod 2 ^ 48"
proof -
  have l: "length [0, 0, 0, 0, 0, 1 :: 8 word] = MAC_ADDR_BYTES"
    by (simp add: MAC_ADDR_BYTES_def)
  have k: "(1::nat) \<le> 2" by simp
  have e: "macNextAddrs [0, 0, 0, 0, 0, 1] 2
     = (True, [0, 0, 0, 0, 0, 3], [[0, 0, 0, 0, 0, 1], [0, 0, 0, 0, 0, 2]])"
    by (simp add: mac_eval)
  have v: "macValue [0, 0, 0, 0, 0, 1 :: 8 word] + 2 \<le> 2 ^ 48"
    by (simp add: macValue_def)
  show ?thesis
    using l k e v macNextAddrs_block [OF l k e] by simp
qed

text \<open>
  Claim C6 as stated fails where the counter wraps inside the block: from the all-ones
  address, two addresses are written, the second being all zeros, so the block is not
  increasing.
\<close>

theorem macNextAddrs_wraps_inside_block:
  "macNextAddrs [255, 255, 255, 255, 255, 255] 2
     = (False, [0, 0, 0, 0, 0, 1], [[255, 255, 255, 255, 255, 255], [0, 0, 0, 0, 0, 0]]) \<and>
   \<not> sorted_wrt (<) (map macValue
        (snd (snd (macNextAddrs [255, 255, 255, 255, 255, 255] 2))))"
proof -
  have e: "macNextAddrs [255, 255, 255, 255, 255, 255] 2
     = (False, [0, 0, 0, 0, 0, 1], [[255, 255, 255, 255, 255, 255], [0, 0, 0, 0, 0, 0]])"
    by (simp add: mac_eval)
  show ?thesis
    unfolding e by (simp add: macValue_def)
qed

section \<open>Theorems about the client-to-edge assignment\<close>

subsection \<open>Rounding to binary64\<close>

text \<open>
  For \<open>x \<ge> 1\<close> the rounded value is \<open>k * 2^e / 2^52\<close> with \<open>2^e \<le> x < 2^(e+1)\<close> and \<open>k\<close>
  between the floor and the ceiling of \<open>x * 2^52 / 2^e\<close>. Hence a value \<open>n / 2^t\<close> with
  \<open>n \<le> 2^53\<close> is never crossed by rounding, in any mode.
\<close>

lemma floorLog2_bounds: "1 \<le> n \<Longrightarrow> 2 ^ floorLog2 n \<le> n \<and> n < 2 ^ Suc (floorLog2 n)"
proof (induction n rule: floorLog2.induct)
  case (1 n)
  show ?case
  proof (cases "n < 2")
    case True
    then have "n = 1" using 1(2) by simp
    then show ?thesis by (simp add: floorLog2.simps)
  next
    case False
    then have pos: "1 \<le> n div 2" by simp
    have ih: "2 ^ floorLog2 (n div 2) \<le> n div 2" "n div 2 < 2 ^ Suc (floorLog2 (n div 2))"
      using 1(1) [OF False pos] by simp_all
    have e: "floorLog2 n = Suc (floorLog2 (n div 2))"
      using False by (subst floorLog2.simps) simp
    show ?thesis
      unfolding e using ih by simp linarith
  qed
qed

lemma roundInt_bounds: "\<lfloor>s\<rfloor> \<le> roundInt rm s \<and> roundInt rm s \<le> \<lceil>s\<rceil>"
proof (cases rm)
  case FE_TONEAREST
  have "\<lfloor>s\<rfloor> \<le> llrint_nearest s"
    by (simp add: llrint_nearest_def Let_def)
  moreover have "llrint_nearest s \<le> \<lceil>s\<rceil>"
  proof (cases "s - of_int \<lfloor>s\<rfloor> < 1 / 2")
    case True
    then show ?thesis by (simp add: llrint_nearest_def Let_def floor_le_ceiling)
  next
    case False
    then have "of_int \<lfloor>s\<rfloor> < s" by linarith
    then have "\<lfloor>s\<rfloor> + 1 \<le> \<lceil>s\<rceil>" by linarith
    moreover have "llrint_nearest s \<le> \<lfloor>s\<rfloor> + 1"
      by (simp add: llrint_nearest_def Let_def)
    ultimately show ?thesis by linarith
  qed
  ultimately show ?thesis using FE_TONEAREST by (simp add: roundInt_def)
qed (simp_all add: roundInt_def floor_le_ceiling)

lemma binade_ge1:
  assumes "1 \<le> x"
  shows "2 ^ floorLog2 \<lfloor>x\<rfloor> \<le> x" "x < 2 ^ Suc (floorLog2 \<lfloor>x\<rfloor>)"
    "binadeScale x = 2 ^ 52 / 2 ^ floorLog2 \<lfloor>x\<rfloor>"
proof -
  have n: "1 \<le> \<lfloor>x\<rfloor>" using assms by simp
  note b = floorLog2_bounds [OF n]
  have "(2::rat) ^ floorLog2 \<lfloor>x\<rfloor> = of_int (2 ^ floorLog2 \<lfloor>x\<rfloor>)" by simp
  also have "\<dots> \<le> of_int \<lfloor>x\<rfloor>"
    using b by (simp only: of_int_le_iff)
  also have "\<dots> \<le> x" by (rule of_int_floor_le)
  finally show "2 ^ floorLog2 \<lfloor>x\<rfloor> \<le> x" .
  have le: "\<lfloor>x\<rfloor> + 1 \<le> 2 ^ Suc (floorLog2 \<lfloor>x\<rfloor>)" using b by linarith
  have "x < of_int (\<lfloor>x\<rfloor> + 1)" by linarith
  also have "\<dots> \<le> of_int (2 ^ Suc (floorLog2 \<lfloor>x\<rfloor>))"
    using le by (simp only: of_int_le_iff)
  also have "\<dots> = 2 ^ Suc (floorLog2 \<lfloor>x\<rfloor>)" by simp
  finally show "x < 2 ^ Suc (floorLog2 \<lfloor>x\<rfloor>)" .
  show "binadeScale x = 2 ^ 52 / 2 ^ floorLog2 \<lfloor>x\<rfloor>"
    using assms by (simp add: binadeScale_def)
qed

lemma fl_ge1:
  assumes "1 \<le> x"
  obtains e k where "(2::rat) ^ e \<le> x" and "x < 2 ^ Suc e"
    and "fl rm x = of_int k * 2 ^ e / 2 ^ 52"
    and "\<lfloor>x * 2 ^ 52 / 2 ^ e\<rfloor> \<le> k" and "k \<le> \<lceil>x * 2 ^ 52 / 2 ^ e\<rceil>"
    and "rm = FE_DOWNWARD \<Longrightarrow> k = \<lfloor>x * 2 ^ 52 / 2 ^ e\<rfloor>"
proof -
  let ?e = "floorLog2 \<lfloor>x\<rfloor>"
  let ?k = "roundInt rm (x * 2 ^ 52 / 2 ^ ?e)"
  note b = binade_ge1 [OF assms]
  have "fl rm x = flPos rm x" using assms by (simp add: fl_def)
  also have "\<dots> = of_int ?k * 2 ^ ?e / 2 ^ 52"
    by (simp add: flPos_def b(3))
  finally have f: "fl rm x = of_int ?k * 2 ^ ?e / 2 ^ 52" .
  show thesis
    by (rule that [of ?e ?k]) (use b f roundInt_bounds in \<open>simp_all add: roundInt_def\<close>)
qed

lemma pow2_split:
  assumes "e + t \<le> 52"
  shows "(2::rat) ^ 52 = 2 ^ (52 - e - t) * 2 ^ e * 2 ^ t"
proof -
  have "52 = (52 - e - t) + e + t" using assms by simp
  then have "(2::rat) ^ 52 = 2 ^ ((52 - e - t) + e + t)" by simp
  then show ?thesis by (simp only: power_add)
qed

lemma fl_sandwich_lo:
  assumes x: "1 \<le> x" and r: "of_nat n / 2 ^ t \<le> x" and n: "n \<le> 2 ^ 53"
  shows "of_nat n / 2 ^ t \<le> fl rm x"
proof -
  define A :: rat where "A = 2 ^ 52"
  have A0: "0 < A" by (simp add: A_def)
  obtain e k where e: "(2::rat) ^ e \<le> x" "x < 2 ^ Suc e"
    and f: "fl rm x = of_int k * 2 ^ e / A"
    and k: "\<lfloor>x * A / 2 ^ e\<rfloor> \<le> k"
    unfolding A_def using fl_ge1 [OF x, of rm] by metis
  let ?s = "x * A / 2 ^ e"
  have goal: "(of_nat n :: rat) / 2 ^ t \<le> of_int k * 2 ^ e / A"
    if "(of_nat n :: rat) * A \<le> of_int k * 2 ^ e * 2 ^ t"
    using that A0 by (simp add: field_simps)
  show ?thesis
  proof (cases "e + t \<le> 52")
    case True
    let ?j = "n * 2 ^ (52 - e - t)"
    have A: "A = 2 ^ (52 - e - t) * 2 ^ e * 2 ^ t"
      unfolding A_def by (rule pow2_split [OF True])
    have j: "(of_nat ?j :: rat) = (of_nat n / 2 ^ t) * A / 2 ^ e"
      unfolding A by simp
    then have j': "(of_nat ?j :: rat) = (of_nat n / 2 ^ t) * (A / 2 ^ e)" by simp
    have "(of_nat n / 2 ^ t) * (A / 2 ^ e) \<le> x * (A / 2 ^ e)"
      using r A0 by (intro mult_right_mono) simp_all
    then have "(of_nat ?j :: rat) \<le> ?s" unfolding j' by simp
    then have "(of_int (int ?j) :: rat) \<le> ?s" by simp
    then have "int ?j \<le> \<lfloor>?s\<rfloor>" by (simp only: le_floor_iff)
    then have "int ?j \<le> k" using k by linarith
    then have "(of_int (int ?j) :: rat) \<le> of_int k" by (simp only: of_int_le_iff)
    then have "(of_int (int ?j) :: rat) * (2 ^ e * 2 ^ t) \<le> of_int k * (2 ^ e * 2 ^ t)"
      by (intro mult_right_mono) simp_all
    moreover have "(of_int (int ?j) :: rat) * (2 ^ e * 2 ^ t) = of_nat n * A"
      unfolding A by simp
    ultimately have "(of_nat n :: rat) * A \<le> of_int k * 2 ^ e * 2 ^ t"
      by (simp only: mult.assoc)
    then show ?thesis unfolding f by (rule goal)
  next
    case False
    then have "53 \<le> e + t" by simp
    then have "(2::rat) ^ 53 \<le> 2 ^ (e + t)"
      by (intro power_increasing) simp_all
    moreover have "(of_nat n :: rat) \<le> of_nat (2 ^ 53)"
      using n by (simp only: of_nat_le_iff)
    ultimately have n': "(of_nat n :: rat) \<le> 2 ^ e * 2 ^ t"
      by (simp add: power_add)
    have "A \<le> ?s"
      using e(1) A0 by (simp add: field_simps)
    then have "(of_int (2 ^ 52) :: rat) \<le> ?s" by (simp add: A_def)
    then have "2 ^ 52 \<le> \<lfloor>?s\<rfloor>" by (simp only: le_floor_iff)
    then have "2 ^ 52 \<le> k" using k by linarith
    then have "(of_int (2 ^ 52) :: rat) \<le> of_int k" by (simp only: of_int_le_iff)
    then have k': "A \<le> of_int k" by (simp add: A_def)
    have "(of_nat n :: rat) * A \<le> (2 ^ e * 2 ^ t) * of_int k"
      using n' k' A0 by (intro mult_mono) simp_all
    then have "(of_nat n :: rat) * A \<le> of_int k * 2 ^ e * 2 ^ t"
      by (simp only: mult.commute mult.left_commute mult.assoc)
    then show ?thesis unfolding f by (rule goal)
  qed
qed

lemma fl_sandwich_hi:
  assumes x: "1 \<le> x" and r: "x \<le> of_nat n / 2 ^ t" and n: "n \<le> 2 ^ 53"
  shows "fl rm x \<le> of_nat n / 2 ^ t"
proof -
  define A :: rat where "A = 2 ^ 52"
  have A0: "0 < A" by (simp add: A_def)
  obtain e k where e: "(2::rat) ^ e \<le> x" "x < 2 ^ Suc e"
    and f: "fl rm x = of_int k * 2 ^ e / A"
    and k: "k \<le> \<lceil>x * A / 2 ^ e\<rceil>"
    unfolding A_def using fl_ge1 [OF x, of rm] by metis
  let ?s = "x * A / 2 ^ e"
  have goal: "of_int k * 2 ^ e / A \<le> (of_nat n :: rat) / 2 ^ t"
    if "of_int k * 2 ^ e * 2 ^ t \<le> (of_nat n :: rat) * A"
    using that A0 by (simp add: field_simps)
  show ?thesis
  proof (cases "e + t \<le> 52")
    case True
    let ?j = "n * 2 ^ (52 - e - t)"
    have A: "A = 2 ^ (52 - e - t) * 2 ^ e * 2 ^ t"
      unfolding A_def by (rule pow2_split [OF True])
    have j: "(of_nat ?j :: rat) = (of_nat n / 2 ^ t) * A / 2 ^ e"
      unfolding A by simp
    then have j': "(of_nat ?j :: rat) = (of_nat n / 2 ^ t) * (A / 2 ^ e)" by simp
    have "x * (A / 2 ^ e) \<le> (of_nat n / 2 ^ t) * (A / 2 ^ e)"
      using r A0 by (intro mult_right_mono) simp_all
    then have "?s \<le> (of_nat ?j :: rat)" unfolding j' by simp
    then have "?s \<le> (of_int (int ?j) :: rat)" by simp
    then have "\<lceil>?s\<rceil> \<le> int ?j" by (simp only: ceiling_le_iff)
    then have "k \<le> int ?j" using k by linarith
    then have "(of_int k :: rat) \<le> of_int (int ?j)" by (simp only: of_int_le_iff)
    then have "(of_int k :: rat) * (2 ^ e * 2 ^ t) \<le> of_int (int ?j) * (2 ^ e * 2 ^ t)"
      by (intro mult_right_mono) simp_all
    moreover have "(of_int (int ?j) :: rat) * (2 ^ e * 2 ^ t) = of_nat n * A"
      unfolding A by simp
    ultimately have "of_int k * 2 ^ e * 2 ^ t \<le> (of_nat n :: rat) * A"
      by (simp only: mult.assoc)
    then show ?thesis unfolding f by (rule goal)
  next
    case False
    then have "53 \<le> e + t" by simp
    then have "(2::rat) ^ 53 \<le> 2 ^ (e + t)"
      by (intro power_increasing) simp_all
    moreover have "(of_nat n :: rat) \<le> of_nat (2 ^ 53)"
      using n by (simp only: of_nat_le_iff)
    ultimately have n': "(of_nat n :: rat) \<le> 2 ^ e * 2 ^ t"
      by (simp add: power_add)
    then have "(of_nat n :: rat) / 2 ^ t \<le> 2 ^ e"
      by (simp add: field_simps)
    then have xe: "x = 2 ^ e" and re: "(of_nat n :: rat) / 2 ^ t = 2 ^ e"
      using r e(1) by linarith+
    have "?s = A" unfolding xe by simp
    then have "\<lceil>?s\<rceil> = 2 ^ 52" by (simp add: A_def)
    then have "k \<le> 2 ^ 52" using k by linarith
    then have "(of_int k :: rat) \<le> of_int (2 ^ 52)" by (simp only: of_int_le_iff)
    then have "(of_int k :: rat) \<le> A" by (simp add: A_def)
    then have "of_int k * 2 ^ e \<le> A * (2::rat) ^ e"
      by (intro mult_right_mono) simp_all
    then have "of_int k * 2 ^ e / A \<le> (2::rat) ^ e"
      using A0 by (simp add: field_simps)
    then show ?thesis unfolding f re .
  qed
qed

lemma fl_down_le:
  assumes x: "1 \<le> x"
  shows "fl FE_DOWNWARD x \<le> x"
proof -
  define A :: rat where "A = 2 ^ 52"
  have A0: "0 < A" by (simp add: A_def)
  obtain e k where f: "fl FE_DOWNWARD x = of_int k * 2 ^ e / A"
    and k: "k = \<lfloor>x * A / 2 ^ e\<rfloor>"
    unfolding A_def using fl_ge1 [OF x, of FE_DOWNWARD] by metis
  have "of_int k \<le> x * A / 2 ^ e" unfolding k by (rule of_int_floor_le)
  then have "of_int k * (2 ^ e / A) \<le> (x * A / 2 ^ e) * (2 ^ e / A)"
    using A0 by (intro mult_right_mono) simp_all
  then show ?thesis unfolding f using A0 by simp
qed

lemma fl_error:
  assumes x: "1 \<le> x"
  shows "\<bar>fl rm x - x\<bar> \<le> x / 2 ^ 52"
proof -
  define A :: rat where "A = 2 ^ 52"
  have A0: "0 < A" by (simp add: A_def)
  obtain e k where e: "(2::rat) ^ e \<le> x"
    and f: "fl rm x = of_int k * 2 ^ e / A"
    and k: "\<lfloor>x * A / 2 ^ e\<rfloor> \<le> k" "k \<le> \<lceil>x * A / 2 ^ e\<rceil>"
    unfolding A_def using fl_ge1 [OF x, of rm] by metis
  let ?s = "x * A / 2 ^ e"
  have "(of_int \<lfloor>?s\<rfloor> :: rat) \<le> of_int k" "(of_int k :: rat) \<le> of_int \<lceil>?s\<rceil>"
    using k by (simp_all only: of_int_le_iff)
  then have d: "\<bar>of_int k - ?s\<bar> \<le> 1" by linarith
  have An: "A \<noteq> 0" using A0 by simp
  have xs: "x = ?s * (2 ^ e / A)" using An by simp
  have f': "fl rm x = of_int k * (2 ^ e / A)" unfolding f by simp
  have "fl rm x - x = of_int k * (2 ^ e / A) - ?s * (2 ^ e / A)"
    unfolding f' using xs by simp
  then have "fl rm x - x = (of_int k - ?s) * (2 ^ e / A)"
    by (simp only: left_diff_distrib)
  then have "\<bar>fl rm x - x\<bar> = \<bar>of_int k - ?s\<bar> * (2 ^ e / A)"
    using A0 by (simp add: abs_mult)
  also have "\<dots> \<le> 1 * (2 ^ e / A)"
    using d A0 by (intro mult_right_mono) simp_all
  also have "\<dots> \<le> x / A"
    using e A0 by (simp add: divide_right_mono)
  finally show ?thesis by (simp add: A_def)
qed

lemma fl_exact:
  assumes "1 \<le> (of_nat n :: rat) / 2 ^ t" and "n \<le> 2 ^ 53"
  shows "fl rm (of_nat n / 2 ^ t) = of_nat n / 2 ^ t"
  using fl_sandwich_lo [OF assms(1) order_refl assms(2), of rm]
    fl_sandwich_hi [OF assms(1) order_refl assms(2), of rm]
  by (rule order_antisym [rotated])

lemma fl_of_nat:
  assumes "n \<le> 2 ^ 53"
  shows "fl rm (of_nat n) = of_nat n"
proof (cases "n = 0")
  case True
  then show ?thesis by (simp add: fl_def)
next
  case False
  then have "1 \<le> (of_nat n :: rat) / 2 ^ 0" by simp
  from fl_exact [OF this assms, of rm] show ?thesis by simp
qed

lemma fl_numeral:
  "(numeral w :: nat) \<le> 2 ^ 53 \<Longrightarrow> fl rm (numeral w) = numeral w"
  using fl_of_nat [of "numeral w" rm] by simp

lemma fl_numeral_half:
  assumes "(2 :: nat) \<le> numeral w" and "(numeral w :: nat) \<le> 2 ^ 53"
  shows "fl rm (numeral w / 2) = numeral w / 2"
proof -
  have "(2 :: rat) \<le> of_nat (numeral w)"
    using assms(1) by (metis of_nat_le_iff of_nat_numeral)
  then have "1 \<le> (of_nat (numeral w) :: rat) / 2 ^ 1" by simp
  from fl_exact [OF this assms(2), of rm] show ?thesis by simp
qed

lemma fl_ge_1:
  assumes "1 \<le> x"
  shows "1 \<le> fl rm x"
  using fl_sandwich_lo [of x 1 0 rm] assms by simp

lemma fl_idem:
  assumes x: "1 \<le> x" and b: "x < 2 ^ 53"
  shows "fl rm' (fl rm x) = fl rm x"
proof -
  obtain e k where e: "(2::rat) ^ e \<le> x" "x < 2 ^ Suc e"
    and f: "fl rm x = of_int k * 2 ^ e / 2 ^ 52"
    and k: "\<lfloor>x * 2 ^ 52 / 2 ^ e\<rfloor> \<le> k" "k \<le> \<lceil>x * 2 ^ 52 / 2 ^ e\<rceil>"
    using fl_ge1 [OF x, of rm] by metis
  have "(2::rat) ^ e < 2 ^ 53" using e b by linarith
  then have e53: "e < 53" by (rule power_less_imp_less_exp [rotated]) simp
  define t where "t = 52 - e"
  have A: "(2::rat) ^ 52 = 2 ^ t * 2 ^ e"
    unfolding t_def using e53 by (simp flip: power_add)
  let ?s = "x * 2 ^ 52 / 2 ^ e"
  have "0 \<le> ?s" using x by simp
  then have "0 \<le> \<lfloor>?s\<rfloor>" by simp
  then have k0: "0 \<le> k" using k(1) by linarith
  have "?s = x * 2 ^ t" unfolding A by simp
  also have "\<dots> \<le> 2 ^ Suc e * 2 ^ t"
    using e(2) by (intro mult_right_mono) simp_all
  also have "\<dots> = 2 * 2 ^ 52" unfolding A by simp
  finally have "?s \<le> of_int (2 ^ 53)" by simp
  then have "\<lceil>?s\<rceil> \<le> 2 ^ 53" by (simp only: ceiling_le_iff)
  then have "k \<le> 2 ^ 53" using k(2) by linarith
  then have n: "nat k \<le> 2 ^ 53" using k0 by (simp add: nat_le_iff)
  have form: "fl rm x = of_nat (nat k) / 2 ^ t"
    unfolding f A using k0 by simp
  have "1 \<le> fl rm x" by (rule fl_ge_1 [OF x])
  then have "1 \<le> (of_nat (nat k) :: rat) / 2 ^ t" unfolding form .
  from fl_exact [OF this n, of rm'] show ?thesis unfolding form .
qed

text \<open>
  The quotient \<open>C / E\<close> for \<open>1 \<le> E \<le> C < 2^32\<close>: it is at least 1, it is representable
  (rounding it again changes nothing), and its product with \<open>E\<close> is within \<open>1/4\<close> of
  \<open>C\<close>. The markers grow by at least 1 from one edge to the next, and the last one is
  \<open>C\<close>.
\<close>

lemma clientsPerEdge_props:
  assumes E1: "1 \<le> E" and EC: "E \<le> C" and C32: "C < 2 ^ 32"
  shows "1 \<le> clientsPerEdge rd C E"
    and "\<bar>clientsPerEdge rd C E * of_nat E - of_nat C\<bar> \<le> 1 / 4"
    and "fl rm (clientsPerEdge rd C E) = clientsPerEdge rd C E"
proof -
  let ?q = "(of_nat C :: rat) / of_nat E"
  have E0: "(0::rat) < of_nat E" using E1 by simp
  have Cb: "C \<le> 2 ^ 53" "E \<le> 2 ^ 53" using C32 EC by simp_all
  have cpe: "clientsPerEdge rd C E = fl rd ?q"
    unfolding clientsPerEdge_def fl_of_nat [OF Cb(1)] fl_of_nat [OF Cb(2)] ..
  have q1: "1 \<le> ?q" using E0 EC by simp
  have "?q \<le> of_nat C / 1"
    using E1 by (intro divide_left_mono) simp_all
  then have qC: "?q \<le> of_nat C" by simp
  have C32': "(of_nat C :: rat) < 2 ^ 32"
    using C32 by (metis of_nat_less_iff of_nat_numeral of_nat_power)
  show "1 \<le> clientsPerEdge rd C E"
    unfolding cpe by (rule fl_ge_1 [OF q1])
  have "?q < 2 ^ 53" using qC C32' by simp
  from fl_idem [OF q1 this, of rm rd]
  show "fl rm (clientsPerEdge rd C E) = clientsPerEdge rd C E"
    unfolding cpe .
  have err: "\<bar>fl rd ?q - ?q\<bar> \<le> ?q / 2 ^ 52" by (rule fl_error [OF q1])
  have "fl rd ?q * of_nat E - of_nat C = (fl rd ?q - ?q) * of_nat E"
    using E0 by (simp add: algebra_simps)
  then have "\<bar>fl rd ?q * of_nat E - of_nat C\<bar> = \<bar>fl rd ?q - ?q\<bar> * of_nat E"
    by (simp add: abs_mult)
  also have "\<dots> \<le> (?q / 2 ^ 52) * of_nat E"
    using err by (intro mult_right_mono) simp_all
  also have "\<dots> = of_nat C / 2 ^ 52" using E0 by simp
  also have "\<dots> \<le> 2 ^ 32 / 2 ^ 52"
    using C32' by (intro divide_right_mono) simp_all
  also have "\<dots> \<le> 1 / 4" by simp
  finally show "\<bar>clientsPerEdge rd C E * of_nat E - of_nat C\<bar> \<le> 1 / 4"
    unfolding cpe .
qed

lemma c_round_nonneg: "0 \<le> x \<Longrightarrow> c_round x = \<lfloor>x + 1 / 2\<rfloor>"
  by (simp add: c_round_def)

lemma marker_last:
  assumes E1: "1 \<le> E" and EC: "E \<le> C" and C32: "C < 2 ^ 32"
  shows "c_round (fl rm (clientsPerEdge rd C E * of_nat E)) = int C"
proof -
  let ?cpe = "clientsPerEdge rd C E"
  let ?P = "?cpe * of_nat E"
  note p = clientsPerEdge_props [OF assms, where rd = rd]
  have C1: "1 \<le> C" using E1 EC by simp
  have P1: "1 \<le> ?P"
  proof -
    have "1 * 1 \<le> ?cpe * of_nat E"
      using p(1) E1 by (intro mult_mono) simp_all
    then show ?thesis by simp
  qed
  have Pb: "of_nat C - 1 / 4 \<le> ?P" "?P \<le> of_nat C + 1 / 4"
    using p(2) by linarith+
  have m1: "(of_nat (4 * C - 1) :: rat) / 2 ^ 2 = of_nat C - 1 / 4"
    using C1 by (simp add: of_nat_diff field_simps)
  have p1: "(of_nat (4 * C + 1) :: rat) / 2 ^ 2 = of_nat C + 1 / 4"
    by (simp add: field_simps)
  have lo: "(of_nat (4 * C - 1) :: rat) / 2 ^ 2 \<le> ?P"
    unfolding m1 by (rule Pb(1))
  have hi: "?P \<le> (of_nat (4 * C + 1) :: rat) / 2 ^ 2"
    unfolding p1 by (rule Pb(2))
  have nb: "4 * C - 1 \<le> 2 ^ 53" "4 * C + 1 \<le> 2 ^ 53" using C32 by simp_all
  have l: "(of_nat (4 * C - 1) :: rat) / 2 ^ 2 \<le> fl rm ?P"
    by (rule fl_sandwich_lo [OF P1 lo nb(1)])
  have h: "fl rm ?P \<le> (of_nat (4 * C + 1) :: rat) / 2 ^ 2"
    by (rule fl_sandwich_hi [OF P1 hi nb(2)])
  have l': "of_int (int C) - 1 / 4 \<le> fl rm ?P" using l unfolding m1 by simp
  have h': "fl rm ?P \<le> of_int (int C) + 1 / 4" using h unfolding p1 by simp
  have "0 \<le> fl rm ?P" using fl_ge_1 [OF P1, of rm] by simp
  then have "c_round (fl rm ?P) = \<lfloor>fl rm ?P + 1 / 2\<rfloor>" by (rule c_round_nonneg)
  also have "\<dots> = int C"
    using l' h' by (simp only: floor_eq_iff) linarith
  finally show ?thesis .
qed

lemma marker_step:
  assumes E1: "1 \<le> E" and EC: "E \<le> C" and C32: "C < 2 ^ 32"
    and i1: "1 \<le> i" and iE: "i < E"
  shows "1 \<le> c_round (fl FE_DOWNWARD (clientsPerEdge rd C E * of_nat i))"
    and "c_round (fl FE_DOWNWARD (clientsPerEdge rd C E * of_nat i)) + 1
         \<le> c_round (fl FE_DOWNWARD (clientsPerEdge rd C E * of_nat (i + 1)))"
proof -
  let ?cpe = "clientsPerEdge rd C E"
  let ?x = "?cpe * of_nat i" and ?x' = "?cpe * of_nat (i + 1)"
  let ?a = "fl FE_DOWNWARD ?x" and ?a' = "fl FE_DOWNWARD ?x'"
  note p = clientsPerEdge_props [OF E1 EC C32, where rd = rd]
  have x1: "1 \<le> ?x"
  proof -
    have "1 * 1 \<le> ?cpe * of_nat i"
      using p(1) i1 by (intro mult_mono) simp_all
    then show ?thesis by simp
  qed
  have x'1: "1 \<le> ?x'"
  proof -
    have "1 * 1 \<le> ?cpe * of_nat (i + 1)"
      using p(1) by (intro mult_mono) simp_all
    then show ?thesis by simp
  qed
  have a1: "1 \<le> ?a" by (rule fl_ge_1 [OF x1])
  have ax: "?a \<le> ?x" by (rule fl_down_le [OF x1])
  have "?x \<le> ?cpe * of_nat E"
    using p(1) iE by (intro mult_left_mono) simp_all
  also have "\<dots> \<le> of_nat C + 1 / 4" using p(2) by linarith
  finally have xC: "?x \<le> of_nat C + 1 / 4" .
  define n where "n = c_round ?a"
  have n: "n = \<lfloor>?a + 1 / 2\<rfloor>" unfolding n_def using a1 by (intro c_round_nonneg) simp
  have n1: "1 \<le> n" unfolding n using a1 by (simp add: le_floor_iff)
  have "of_int n \<le> ?a + 1 / 2" unfolding n by (rule of_int_floor_le)
  then have na: "of_int n - 1 / 2 \<le> ?a" by simp
  have "of_int n \<le> (of_nat C :: rat) + 3 / 4" using na ax xC by linarith
  then have "of_int n < (of_int (int C + 1) :: rat)" by simp
  then have "n < int C + 1" by (simp only: of_int_less_iff)
  then have nC: "n \<le> int C" by simp
  have "?x' = ?x + ?cpe" by (simp add: algebra_simps)
  then have "of_int n + 1 / 2 \<le> ?x'" using na ax p(1) by linarith
  moreover have "(of_nat (nat (2 * n + 1)) :: rat) / 2 ^ 1 = of_int n + 1 / 2"
    using n1 by (simp add: field_simps)
  ultimately have lo: "(of_nat (nat (2 * n + 1)) :: rat) / 2 ^ 1 \<le> ?x'" by simp
  have nb: "nat (2 * n + 1) \<le> 2 ^ 53" using nC C32 n1 by (simp add: nat_le_iff)
  have "(of_nat (nat (2 * n + 1)) :: rat) / 2 ^ 1 \<le> ?a'"
    by (rule fl_sandwich_lo [OF x'1 lo nb])
  then have "of_int (n + 1) \<le> ?a' + 1 / 2"
    using n1 by (simp add: field_simps)
  then have "n + 1 \<le> \<lfloor>?a' + 1 / 2\<rfloor>" by (simp only: le_floor_iff)
  moreover have "c_round ?a' = \<lfloor>?a' + 1 / 2\<rfloor>"
    using fl_ge_1 [OF x'1, of FE_DOWNWARD] by (intro c_round_nonneg) simp
  ultimately show "c_round ?a + 1 \<le> c_round ?a'" unfolding n_def by simp
  show "1 \<le> c_round ?a" using n1 unfolding n_def .
qed

lemma llrint_nearest_of_int: "llrint_nearest (of_int n) = n"
  by (simp add: llrint_nearest_def)

lemma c_round_0: "c_round 0 = 0"
  by (simp add: c_round_def floor_eq_iff)

lemma edgeMarker_0: "edgeMarker cpe 0 = 0"
  by (simp add: edgeMarker_def fl_def c_round_0)

lemma edgeMarker_props:
  assumes E1: "1 \<le> E" and EC: "E \<le> C" and C32: "C < 2 ^ 32"
  shows "i < E \<Longrightarrow> edgeMarker (clientsPerEdge rd C E) i + 1 \<le> edgeMarker (clientsPerEdge rd C E) (Suc i)"
    and "edgeMarker (clientsPerEdge rd C E) E = int C"
    and "edgeMarker (clientsPerEdge rd C E) 1 = c_round (clientsPerEdge rd C E)"
proof -
  let ?cpe = "clientsPerEdge rd C E"
  note p = clientsPerEdge_props [OF assms, where rd = rd]
  show one: "edgeMarker ?cpe 1 = c_round ?cpe"
    by (simp add: edgeMarker_def p(3))
  show "edgeMarker ?cpe E = int C"
    unfolding edgeMarker_def by (rule marker_last [OF assms])
  show "edgeMarker ?cpe i + 1 \<le> edgeMarker ?cpe (Suc i)" if "i < E"
  proof (cases "i = 0")
    case True
    have "(1::int) \<le> \<lfloor>?cpe + 1 / 2\<rfloor>" using p(1) by (simp add: le_floor_iff)
    moreover have "c_round ?cpe = \<lfloor>?cpe + 1 / 2\<rfloor>"
      using p(1) by (intro c_round_nonneg) simp
    ultimately show ?thesis using True one by (simp add: edgeMarker_0)
  next
    case False
    then have "1 \<le> i" by simp
    from marker_step(2) [OF assms this that, where rd = rd]
    show ?thesis by (simp add: edgeMarker_def)
  qed
qed

lemma edgeMarker_mono:
  assumes E1: "1 \<le> E" and EC: "E \<le> C" and C32: "C < 2 ^ 32"
  shows "i \<le> j \<Longrightarrow> j \<le> E \<Longrightarrow>
    edgeMarker (clientsPerEdge rd C E) i \<le> edgeMarker (clientsPerEdge rd C E) j"
proof (induction j)
  case 0
  then show ?case by simp
next
  case (Suc j)
  show ?case
  proof (cases "i = Suc j")
    case True
    then show ?thesis by simp
  next
    case False
    then have "i \<le> j" "j \<le> E" "j < E" using Suc.prems by simp_all
    then show ?thesis
      using Suc.IH edgeMarker_props(1) [OF assms, where rd = rd and i = j] by linarith
  qed
qed

lemma currentEdgeCapacity_marker:
  assumes E1: "1 \<le> E" and EC: "E \<le> C" and C32: "C < 2 ^ 32"
    and i: "i < E" and m: "i = 0 \<or> rm = FE_DOWNWARD"
  shows "currentEdgeCapacity rm (clientsPerEdge rd C E) i =
           word_of_int (edgeMarker (clientsPerEdge rd C E) (Suc i)
                        - edgeMarker (clientsPerEdge rd C E) i)"
    and "1 \<le> edgeMarker (clientsPerEdge rd C E) (Suc i) - edgeMarker (clientsPerEdge rd C E) i"
    and "edgeMarker (clientsPerEdge rd C E) (Suc i) - edgeMarker (clientsPerEdge rd C E) i \<le> int C"
proof -
  let ?cpe = "clientsPerEdge rd C E"
  let ?d = "edgeMarker ?cpe (Suc i) - edgeMarker ?cpe i"
  note p = clientsPerEdge_props [OF E1 EC C32, where rd = rd]
  note q = edgeMarker_props [OF E1 EC C32, where rd = rd]
  have ib: "i \<le> 2 ^ 53" "i + 1 \<le> 2 ^ 53" using i EC C32 by simp_all
  have prev: "c_round (fl rm (?cpe * fl rm (of_nat i))) = edgeMarker ?cpe i"
  proof (cases "i = 0")
    case True
    then show ?thesis by (simp add: edgeMarker_0 fl_def c_round_0)
  next
    case False
    then have "rm = FE_DOWNWARD" using m by simp
    then show ?thesis by (simp only: edgeMarker_def fl_of_nat [OF ib(1)])
  qed
  have "next": "c_round (fl rm (?cpe * fl rm (of_nat (i + 1)))) = edgeMarker ?cpe (Suc i)"
  proof (cases "i = 0")
    case True
    have "fl rm (of_nat (i + 1)) = of_nat (i + 1)" by (rule fl_of_nat [OF ib(2)])
    then have "c_round (fl rm (?cpe * fl rm (of_nat (i + 1)))) = c_round ?cpe"
      using True by (simp add: p(3))
    then show ?thesis using True q(3) by simp
  next
    case False
    then have "rm = FE_DOWNWARD" using m by simp
    then show ?thesis by (simp only: edgeMarker_def fl_of_nat [OF ib(2)] Suc_eq_plus1)
  qed
  show d1: "1 \<le> ?d" using q(1) [OF i] by simp
  have "edgeMarker ?cpe (Suc i) \<le> edgeMarker ?cpe E"
    using i by (intro edgeMarker_mono [OF E1 EC C32]) simp_all
  moreover have "edgeMarker ?cpe 0 \<le> edgeMarker ?cpe i"
    using i by (intro edgeMarker_mono [OF E1 EC C32]) simp_all
  ultimately show dC: "?d \<le> int C"
    unfolding q(2) edgeMarker_0 by linarith
  have "nat ?d \<le> 2 ^ 53" using dC C32 by simp
  from fl_of_nat [OF this, of FE_TONEAREST]
  have "fl FE_TONEAREST (of_int ?d) = of_int ?d" using d1 by simp
  then have "llrint_nearest (fl FE_TONEAREST (of_int (edgeMarker ?cpe (Suc i))
               - of_int (edgeMarker ?cpe i))) = ?d"
    by (simp add: llrint_nearest_of_int flip: of_int_diff)
  then show "currentEdgeCapacity rm ?cpe i = word_of_int ?d"
    unfolding currentEdgeCapacity_def Let_def prev "next" by simp
qed

lemma edgeCapacities_marker:
  assumes E1: "1 \<le> E" and EC: "E \<le> C" and C32: "C < 2 ^ 32"
  shows "idx + n \<le> E \<Longrightarrow> idx = 0 \<or> rm = FE_DOWNWARD \<Longrightarrow>
    edgeCapacities rm (clientsPerEdge rd C E) idx n =
      map (\<lambda>i. word_of_int (edgeMarker (clientsPerEdge rd C E) (Suc i)
                               - edgeMarker (clientsPerEdge rd C E) i))
        [idx..<idx + n]"
proof (induction n arbitrary: idx rm)
  case 0
  show ?case by simp
next
  case (Suc n)
  have i: "idx < E" using Suc.prems(1) by simp
  have hd: "currentEdgeCapacity rm (clientsPerEdge rd C E) idx =
      word_of_int (edgeMarker (clientsPerEdge rd C E) (Suc idx)
                   - edgeMarker (clientsPerEdge rd C E) idx)"
    by (rule currentEdgeCapacity_marker(1) [OF assms i Suc.prems(2)])
  have tl: "edgeCapacities FE_DOWNWARD (clientsPerEdge rd C E) (idx + 1) n =
      map (\<lambda>i. word_of_int (edgeMarker (clientsPerEdge rd C E) (Suc i)
                               - edgeMarker (clientsPerEdge rd C E) i))
        [idx + 1..<idx + 1 + n]"
    using Suc.prems(1) by (intro Suc.IH) simp_all
  have u: "[idx..<idx + Suc n] = idx # [idx + 1..<idx + 1 + n]"
    by (simp add: upt_conv_Cons)
  show ?case
    unfolding u edgeCapacities.simps hd tl by (simp only: list.map)
qed

lemma sum_markers:
  assumes E1: "1 \<le> E" and EC: "E \<le> C" and C32: "C < 2 ^ 32"
  shows "k \<le> E \<Longrightarrow>
    sum_list (map (\<lambda>i. nat (edgeMarker (clientsPerEdge rd C E) (Suc i)
                               - edgeMarker (clientsPerEdge rd C E) i)) [0..<k])
      = nat (edgeMarker (clientsPerEdge rd C E) k)"
proof (induction k)
  case 0
  show ?case by (simp add: edgeMarker_0)
next
  case (Suc k)
  have k: "k < E" "k \<le> E" using Suc.prems by simp_all
  have "0 \<le> edgeMarker (clientsPerEdge rd C E) k"
    using edgeMarker_mono [OF assms, of 0 k rd] k by (simp add: edgeMarker_0)
  moreover have "edgeMarker (clientsPerEdge rd C E) k \<le> edgeMarker (clientsPerEdge rd C E) (Suc k)"
    using edgeMarker_props(1) [OF assms k(1), where rd = rd] by simp
  ultimately show ?case using Suc.IH [OF k(2)] by simp
qed

lemma unat_word_of_int_32:
  assumes "0 \<le> d" and "d < 2 ^ 32"
  shows "unat (word_of_int d :: 32 word) = nat d"
proof -
  have "take_bit LENGTH(32) d = d"
    using assms by (intro take_bit_int_eq_self) simp_all
  then show ?thesis
    by (simp only: unsigned_of_int) simp
qed

lemma edge_capacities_general:
  assumes E1: "1 \<le> E" and EC: "E \<le> C" and C32: "C < 2 ^ 32"
  shows "length (edgeCapacities rm (clientsPerEdge rd C E) 0 E) = E \<and>
         (\<forall>c \<in> set (edgeCapacities rm (clientsPerEdge rd C E) 0 E). 1 \<le> unat c) \<and>
         sum_list (map unat (edgeCapacities rm (clientsPerEdge rd C E) 0 E)) = C"
proof -
  define cpe where "cpe = clientsPerEdge rd C E"
  define d where "d = (\<lambda>i. edgeMarker cpe (Suc i) - edgeMarker cpe i)"
  have caps: "edgeCapacities rm cpe 0 E = map (\<lambda>i. word_of_int (d i)) [0..<E]"
    unfolding cpe_def d_def
    using edgeCapacities_marker [OF assms, of 0 E rm rd] by simp
  have db: "1 \<le> d i" "d i \<le> int C" if "i < E" for i
    unfolding cpe_def d_def
    using currentEdgeCapacity_marker(2,3) [OF assms that, of FE_DOWNWARD rd] by simp_all
  have un: "unat (word_of_int (d i) :: 32 word) = nat (d i)" if "i < E" for i
    using db [OF that] C32 by (intro unat_word_of_int_32) simp_all
  have m: "map unat (edgeCapacities rm cpe 0 E) = map (\<lambda>i. nat (d i)) [0..<E]"
    unfolding caps map_map by (rule map_cong) (simp_all add: un)
  have "sum_list (map (\<lambda>i. nat (d i)) [0..<E]) = nat (edgeMarker cpe E)"
    unfolding cpe_def d_def by (rule sum_markers [OF assms order_refl])
  also have "\<dots> = C"
    unfolding cpe_def by (simp add: edgeMarker_props(2) [OF assms])
  finally have s: "sum_list (map unat (edgeCapacities rm cpe 0 E)) = C"
    unfolding m .
  have ge: "1 \<le> unat c" if "c \<in> set (edgeCapacities rm cpe 0 E)" for c
  proof -
    have "c \<in> (\<lambda>i. word_of_int (d i)) ` set [0..<E]"
      using that unfolding caps by (simp only: set_map)
    then obtain i where i: "i < E" "c = word_of_int (d i)"
      by (auto simp del: of_int_diff)
    show ?thesis
      unfolding i(2) un [OF i(1)] using db(1) [OF i(1)] by simp
  qed
  have l: "length (edgeCapacities rm cpe 0 E) = E"
    unfolding caps by simp
  show ?thesis
    using l s ge unfolding cpe_def by blast
qed

text \<open>The values of the example of the specification are all representable.\<close>

lemma fl_example_values:
  "fl rm 1 = 1" "fl rm 2 = 2" "fl rm 3 = 3" "fl rm 5 = 5" "fl rm (5 / 2) = 5 / 2"
  using fl_of_nat [of 1 rm] fl_of_nat [of 2 rm] fl_of_nat [of 3 rm] fl_of_nat [of 5 rm]
    fl_exact [of 5 1 rm]
  by simp_all

lemma fl_0: "fl rm 0 = 0"
  by (simp add: fl_def)

lemma c_round_example_values: "c_round (5 / 2) = 3" "c_round 5 = 5"
  by (simp_all add: c_round_def floor_eq_iff)

lemma clientsPerEdge_5_2: "clientsPerEdge rd 5 2 = 5 / 2"
  unfolding clientsPerEdge_def by (simp only: of_nat_numeral fl_example_values)

lemma currentEdgeCapacity_5_2:
  "currentEdgeCapacity rm (5 / 2) 0 = 3" "currentEdgeCapacity rm (5 / 2) (Suc 0) = 2"
  unfolding currentEdgeCapacity_def Let_def
  by (simp_all add: fl_example_values fl_0 c_round_example_values c_round_0
      llrint_nearest_of_int [of 3, simplified] llrint_nearest_of_int [of 2, simplified])

lemma edgeCapacities_5_2: "edgeCapacities rm (clientsPerEdge rd 5 2) 0 2 = [3, 2]"
  unfolding clientsPerEdge_5_2
  by (simp add: numeral_2_eq_2 currentEdgeCapacity_5_2)

text \<open>
  The arithmetic is that of binary64, not of the rationals: for 11 clients on 6 edges
  under \<^verbatim>\<open>FE_DOWNWARD\<close> the quotient is rounded to a value below \<open>11/6\<close>, the third marker
  is \<^verbatim>\<open>round\<close> of a product just below \<open>5.5\<close>, and the third edge gets 1 client (exact
  arithmetic would give it 2).
\<close>

lemma floorLog2_numeral:
  "floorLog2 (numeral w) = (if (numeral w :: int) < 2 then 0 else Suc (floorLog2 (numeral w div 2)))"
  by (rule floorLog2.simps)

lemma floorLog2_small: "floorLog2 0 = 0" "floorLog2 1 = 0"
  by (simp_all add: floorLog2.simps)

lemma fl_down_eval:
  assumes "\<lfloor>x\<rfloor> = n" and "1 \<le> n" and "floorLog2 n = e" and "\<lfloor>x * 2 ^ 52 / 2 ^ e\<rfloor> = k"
  shows "fl FE_DOWNWARD x = of_int k * 2 ^ e / 2 ^ 52"
proof -
  have "(1::int) \<le> \<lfloor>x\<rfloor>" using assms(1,2) by simp
  then have x: "1 \<le> x" by (simp add: le_floor_iff)
  then show ?thesis
    using assms by (simp add: fl_def flPos_def binadeScale_def roundInt_def)
qed

lemma clientsPerEdge_11_6:
  "clientsPerEdge FE_DOWNWARD 11 6 = 8256599316845909 / 2 ^ 52"
proof -
  have "fl FE_DOWNWARD (11 / 6) = of_int 8256599316845909 * 2 ^ 0 / 2 ^ 52"
    by (rule fl_down_eval [where n = 1]) (simp_all add: floorLog2_small floor_eq_iff)
  then show ?thesis
    unfolding clientsPerEdge_def
    by (simp only: of_nat_numeral fl_of_nat [of 11, simplified] fl_of_nat [of 6, simplified])
      simp
qed

lemma markers_11_6:
  "c_round (fl FE_DOWNWARD (clientsPerEdge FE_DOWNWARD 11 6 * 2)) = 4"
  "c_round (fl FE_DOWNWARD (clientsPerEdge FE_DOWNWARD 11 6 * 3)) = 5"
proof -
  have "fl FE_DOWNWARD (8256599316845909 / 2 ^ 52 * 2) = of_int 8256599316845909 * 2 ^ 1 / 2 ^ 52"
    by (rule fl_down_eval [where n = 3])
      (simp_all add: floorLog2_numeral floorLog2_small floor_eq_iff)
  then show "c_round (fl FE_DOWNWARD (clientsPerEdge FE_DOWNWARD 11 6 * 2)) = 4"
    unfolding clientsPerEdge_11_6 by (simp add: c_round_def floor_eq_iff)
  have "fl FE_DOWNWARD (8256599316845909 / 2 ^ 52 * 3) = of_int 6192449487634431 * 2 ^ 2 / 2 ^ 52"
    by (rule fl_down_eval [where n = 5])
      (simp_all add: floorLog2_numeral floorLog2_small floor_eq_iff)
  then show "c_round (fl FE_DOWNWARD (clientsPerEdge FE_DOWNWARD 11 6 * 3)) = 5"
    unfolding clientsPerEdge_11_6 by (simp add: c_round_def floor_eq_iff)
qed

lemma currentEdgeCapacity_11_6:
  "currentEdgeCapacity FE_DOWNWARD (clientsPerEdge FE_DOWNWARD 11 6) 2 = 1"
  unfolding currentEdgeCapacity_def Let_def
  using markers_11_6
  by (simp add: fl_example_values llrint_nearest_of_int [of 1, simplified])

subsection \<open>The capacities\<close>

text \<open>
  Claim C4, as amended. The markers are rounded by C's \<^verbatim>\<open>round\<close>, halfway cases away
  from zero, and the arithmetic is binary64. For \<open>1 \<le> E \<le> C < 2^32\<close> (the capacities
  are 32-bit counts), whatever rounding mode the quotient was formed in and whatever
  mode the first call of \<^verbatim>\<open>gmlNextEdge\<close> finds, the \<open>E\<close> capacities are each at least 1
  and sum to \<open>C\<close>; for \<open>C = 5\<close>, \<open>E = 2\<close> they are 3 and 2.
\<close>

theorem edge_capacities:
  "(1 \<le> E \<and> E \<le> C \<and> C < 2 ^ 32 \<longrightarrow>
      length (edgeCapacities rm (clientsPerEdge rd C E) 0 E) = E \<and>
      (\<forall>c \<in> set (edgeCapacities rm (clientsPerEdge rd C E) 0 E). 1 \<le> unat c) \<and>
      sum_list (map unat (edgeCapacities rm (clientsPerEdge rd C E) 0 E)) = C) \<and>
   edgeCapacities rm (clientsPerEdge rd 5 2) 0 2 = [3, 2]"
  using edge_capacities_general [of E C rm rd] edgeCapacities_5_2 [of rm rd] by blast

theorem edge_capacities_witness:
  "(1::nat) \<le> 2 \<and> (2::nat) \<le> 5 \<and> (5::nat) < 2 ^ 32 \<and>
   length (edgeCapacities FE_TONEAREST (clientsPerEdge FE_DOWNWARD 5 2) 0 2) = 2 \<and>
   1 \<le> unat (edgeCapacities FE_TONEAREST (clientsPerEdge FE_DOWNWARD 5 2) 0 2 ! 0) \<and>
   1 \<le> unat (edgeCapacities FE_TONEAREST (clientsPerEdge FE_DOWNWARD 5 2) 0 2 ! 1) \<and>
   sum_list (map unat (edgeCapacities FE_TONEAREST (clientsPerEdge FE_DOWNWARD 5 2) 0 2)) = 5 \<and>
   edgeCapacities FE_TONEAREST (clientsPerEdge FE_DOWNWARD 5 2) 0 2 = [3, 2]"
  using edge_capacities [of 2 5 FE_TONEAREST FE_DOWNWARD] by simp

text \<open>
  Claim C4 as stated fails at its own example: the capacities for 5 clients and 2 edges
  are not 2 and 3, even with every operation rounded to nearest.
\<close>

theorem edge_capacities_not_banker:
  "edgeCapacities FE_TONEAREST (clientsPerEdge FE_TONEAREST 5 2) 0 2 \<noteq> [2, 3]"
  by (simp add: edgeCapacities_5_2)

section \<open>Theorems about the address iterator\<close>

lemmas ip4_eval =
  ip4NewIter_def ip4SubnetHasReserved_def subnetRange_def ip4SubnetStart_def
  ip4SubnetEnd_def ip4HostMask_def qsortRanges_def ignoreRangeCompare_def
  ip4IterAll.simps ip4IterNext_def ip4IterSkip.simps ip4IterAdvance.simps insideIgnore_def
  IGNORES_REMAIN_def currentIgnore_def ip4IterAddr_def htonl_def ntohl_def dotted_def
  Let_def

text \<open>
  The example of the specification: iterating \<open>10.0.0.0/30\<close> while avoiding
  \<open>10.0.0.1/32\<close> yields \<open>10.0.0.0\<close>, \<open>10.0.0.2\<close>, \<open>10.0.0.3\<close> and then stops.
\<close>

lemma ip4Iter_example:
  "ip4IterAll (ip4NewIter \<lparr>addr = dotted 10 0 0 0, prefixLen = 30\<rparr> False
       [\<lparr>addr = dotted 10 0 0 1, prefixLen = 32\<rparr>])
     = [dotted 10 0 0 0, dotted 10 0 0 2, dotted 10 0 0 3]"
  by (simp add: ip4_eval)

text \<open>
  Claim C1 fails on the code when an avoid subnet lies wholly below the parent: the
  cursor of \<^verbatim>\<open>ip4IterNext\<close> never leaves that range, so the ranges sorted after it are
  never consulted. Iterating \<open>0.0.0.2/31\<close> while avoiding \<open>0.0.0.0/32\<close> and
  \<open>0.0.0.2/32\<close> yields \<open>0.0.0.2\<close>, an avoided address.
\<close>

theorem ip4Iter_yields_avoided_address:
  "ip4IterAll (ip4NewIter \<lparr>addr = dotted 0 0 0 2, prefixLen = 31\<rparr> False
       [\<lparr>addr = dotted 0 0 0 0, prefixLen = 32\<rparr>, \<lparr>addr = dotted 0 0 0 2, prefixLen = 32\<rparr>])
     = [dotted 0 0 0 2, dotted 0 0 0 3]"
  by (simp add: ip4_eval)

section \<open>Theorems about the fragmenter\<close>

lemma ilog2_numeral:
  "ilog2 (numeral n) = (if (numeral n :: nat) < 2 then 0 else Suc (ilog2 (numeral n div 2)))"
  by (rule ilog2.simps)

lemma ilog2_small: "ilog2 0 = 0" "ilog2 1 = 0" "ilog2 (Suc 0) = 0"
  by (simp_all add: ilog2.simps)

lemma ip4FragIterCalls_numeral:
  "ip4FragIterCalls (numeral n) it =
     (let (more, it') = ip4FragIterNext it
      in (more, ip4FragIterSubnet it') # ip4FragIterCalls (pred_numeral n) it')"
  by (simp add: numeral_eq_Suc)

lemmas frag_eval =
  ip4FragmentSubnet_def ip4SubnetSize_def ip4FragIterNext_def ip4FragIterSubnet_def
  htonl_def ntohl_def dotted_def Let_def

text \<open>
  The example of the specification: \<open>10.0.0.0/24\<close> in 3 fragments gives
  \<open>10.0.0.0/25\<close>, \<open>10.0.0.128/26\<close>, \<open>10.0.0.192/26\<close>; the first three calls return true
  and the fourth returns false.
\<close>

lemma ip4FragmentSubnet_example_iter:
  "ip4FragmentSubnet \<lparr>addr = dotted 10 0 0 0, prefixLen = 24\<rparr> 3 =
     Inr \<lparr>first = True, currentAddr_f = 167772160, smallIncrement = 64,
          smallPrefixLen = 26, largeFragmentsRemaining = 1, fragmentsRemaining = 3\<rparr>"
  apply (simp add: frag_eval)
  apply (simp add: ilog2_numeral ilog2_small)
  done

lemma ip4FragmentSubnet_example_calls:
  "map_sum id (ip4FragIterCalls 4)
     (ip4FragmentSubnet \<lparr>addr = dotted 10 0 0 0, prefixLen = 24\<rparr> 3)
   = Inr [(True, \<lparr>addr = dotted 10 0 0 0, prefixLen = 25\<rparr>),
          (True, \<lparr>addr = dotted 10 0 0 128, prefixLen = 26\<rparr>),
          (True, \<lparr>addr = dotted 10 0 0 192, prefixLen = 26\<rparr>),
          (False, \<lparr>addr = dotted 10 0 1 0, prefixLen = 26\<rparr>)]"
  unfolding ip4FragmentSubnet_example_iter
  by (simp add: ip4FragIterCalls_numeral ip4FragIterNext_def ip4FragIterSubnet_def
      htonl_def ntohl_def dotted_def)

lemma ip4Fragments_example:
  "ip4Fragments \<lparr>addr = dotted 10 0 0 0, prefixLen = 24\<rparr> 3 =
     Inr [\<lparr>addr = dotted 10 0 0 0, prefixLen = 25\<rparr>,
          \<lparr>addr = dotted 10 0 0 128, prefixLen = 26\<rparr>,
          \<lparr>addr = dotted 10 0 0 192, prefixLen = 26\<rparr>]"
  unfolding ip4Fragments_def ip4FragmentSubnet_example_iter
  by (simp add: ip4FragIterAll.simps ip4FragIterNext_def ip4FragIterSubnet_def
      htonl_def ntohl_def dotted_def)

lemma ip4FragmentSubnet_whole_space:
  "ip4FragmentSubnet \<lparr>addr = dotted 0 0 0 0, prefixLen = 0\<rparr> 1 = Inl ShiftTooWide"
  apply (simp add: frag_eval)
  apply (simp add: ilog2_numeral ilog2_small)
  done

text \<open>
  Claim C2 fails on the code for the whole address space in one fragment: the parent
  \<open>0.0.0.0/0\<close> has \<open>2^32\<close> addresses, \<open>1 \<le> 2^32\<close>, and the fragmenter computes
  \<^verbatim>\<open>1U << 32\<close>, which C leaves undefined; no list of fragments is produced.
\<close>

theorem ip4Fragments_whole_space_undefined:
  "ip4SubnetSize \<lparr>addr = dotted 0 0 0 0, prefixLen = 0\<rparr> False = 2 ^ 32 \<and>
   ip4Fragments \<lparr>addr = dotted 0 0 0 0, prefixLen = 0\<rparr> 1 = Inl ShiftTooWide"
  by (simp add: ip4Fragments_def ip4FragmentSubnet_whole_space ip4SubnetSize_def)

text \<open>
  Claim C3 fails on the code at the same input: for \<open>0.0.0.0/0\<close> and \<open>N = 1\<close> the claim's
  \<open>k\<close> is 32, and it expects one call returning true with the fragment \<open>0.0.0.0/0\<close>;
  the code reaches the undefined shift before any iterator exists.
\<close>

theorem ip4FragIterCalls_whole_space_undefined:
  "ilog2 (unat (ip4SubnetSize \<lparr>addr = dotted 0 0 0 0, prefixLen = 0\<rparr> False) div 1) = 32 \<and>
   map_sum id (ip4FragIterCalls 2)
     (ip4FragmentSubnet \<lparr>addr = dotted 0 0 0 0, prefixLen = 0\<rparr> 1) = Inl ShiftTooWide"
  unfolding ip4FragmentSubnet_whole_space
  by (simp add: ip4SubnetSize_def ilog2_numeral ilog2_small)

section \<open>Theorems about the setup callbacks\<close>


lemma gmlNameToState_None:
  "gmlNameToState env ctx nm None = (ctx, map_of (gmlToState ctx) nm)"
  by (simp add: gmlNameToState_def split: option.splits)







lemma gmlAddLinkBody_eq:
  "gmlAddLinkBody env ctx lnk wr calls =
     (case map_of (gmlToState ctx) (sourceName lnk) of
        None \<Rightarrow> (1, ctx, calls)
      | Some sourceId \<Rightarrow>
          (case map_of (gmlToState ctx) (targetName lnk) of
             None \<Rightarrow> (1, ctx, calls)
           | Some targetId \<Rightarrow>
               (if sourceId = targetId then
                  (if isClient (nodeStates ctx ! sourceId)
                   then (rSetSelfLink wr, ctx, calls @ [WorkSetSelfLink sourceId])
                   else (0, ctx, calls))
                else
                  (case macNextAddrs (macAddrIter ctx) (NEEDED_MACS_LINK env) of
                     (ok, next, macs) \<Rightarrow>
                       (if \<not> ok then (1, ctx\<lparr>macAddrIter := next\<rparr>, calls)
                        else if rAddLink wr = 0 then
                          (if weight lnk < 0
                           then (1, ctx\<lparr>macAddrIter := next\<rparr>,
                                 calls @ [WorkAddLink sourceId targetId
                                   (nsAddr (nodeStates ctx ! sourceId))
                                   (nsAddr (nodeStates ctx ! targetId)) macs])
                           else (0,
                                 ctx\<lparr>macAddrIter := next,
                                     routes := rpSetWeight
                                       (rpSetWeight (routes ctx) sourceId targetId (weight lnk))
                                       targetId sourceId (weight lnk)\<rparr>,
                                 calls @ [WorkAddLink sourceId targetId
                                   (nsAddr (nodeStates ctx ! sourceId))
                                   (nsAddr (nodeStates ctx ! targetId)) macs]))
                        else (rAddLink wr, ctx\<lparr>macAddrIter := next\<rparr>,
                              calls @ [WorkAddLink sourceId targetId
                                   (nsAddr (nodeStates ctx ! sourceId))
                                   (nsAddr (nodeStates ctx ! targetId)) macs]))))))"
  by (simp add: gmlAddLinkBody_def gmlNameToState_None Let_def
      split: option.splits prod.splits)

lemma rpSetWeight_Some: "p \<noteq> None \<Longrightarrow> rpSetWeight p u v w \<noteq> None"
  by (simp add: rpSetWeight_def)





lemma macNextAddr_zero:
  "macNextAddr (replicate MAC_ADDR_BYTES 0) = (True, [0, 0, 0, 0, 0, 1])"
proof -
  have "replicate MAC_ADDR_BYTES (0 :: 8 word) = [0, 0, 0, 0, 0, 0]"
    by (simp add: MAC_ADDR_BYTES_def eval_nat_numeral)
  then show ?thesis by (simp add: mac_eval)
qed



lemma gmlAddLinkBody_frame:
  assumes "gmlAddLinkBody env ctx lnk wr calls0 = (res, ctx', calls)"
  shows "(\<exists>more. calls = calls0 @ more) \<and>
         (routes ctx \<noteq> None \<longrightarrow> routes ctx' \<noteq> None) \<and>
         clientsPerEdge_ctx ctx' = clientsPerEdge_ctx ctx \<and>
         finishedNodes ctx' = finishedNodes ctx \<and>
         (\<not> fst (macNextAddrs (macAddrIter ctx) (NEEDED_MACS_LINK env)) \<longrightarrow>
            (list_all (\<lambda>c. \<not> isAddLink c) calls0 \<longrightarrow> list_all (\<lambda>c. \<not> isAddLink c) calls) \<and>
            (res = 0 \<longrightarrow> macAddrIter ctx' = macAddrIter ctx))"
proof (cases "map_of (gmlToState ctx) (sourceName lnk)")
  case None
  then show ?thesis using assms by (simp add: gmlAddLinkBody_eq)
next
  case s: (Some sourceId)
  show ?thesis
  proof (cases "map_of (gmlToState ctx) (targetName lnk)")
    case None
    then show ?thesis using assms s by (simp add: gmlAddLinkBody_eq)
  next
    case t: (Some targetId)
    show ?thesis
    proof (cases "sourceId = targetId")
      case True
      then show ?thesis using assms s t by (auto simp: gmlAddLinkBody_eq split: if_splits)
    next
      case ne: False
      obtain ok v' macs where
        mm: "macNextAddrs (macAddrIter ctx) (NEEDED_MACS_LINK env) = (ok, v', macs)"
        by (cases "macNextAddrs (macAddrIter ctx) (NEEDED_MACS_LINK env)")
      show ?thesis
      proof (cases ok)
        case False
        then have "res = 1" "ctx' = ctx\<lparr>macAddrIter := v'\<rparr>" "calls = calls0"
          using assms s t ne mm by (simp_all add: gmlAddLinkBody_eq)
        then show ?thesis by simp
      next
        case True
        let ?call = "WorkAddLink sourceId targetId (nsAddr (nodeStates ctx ! sourceId))
                       (nsAddr (nodeStates ctx ! targetId)) macs"
        have calls: "calls = calls0 @ [?call]"
          using assms s t ne mm True by (simp add: gmlAddLinkBody_eq split: if_splits)
        consider (a) "rAddLink wr \<noteq> 0" | (b) "rAddLink wr = 0" "weight lnk < 0"
          | (c) "rAddLink wr = 0" "\<not> weight lnk < 0"
          by blast
        then show ?thesis
        proof cases
          case a
          then have "ctx' = ctx\<lparr>macAddrIter := v'\<rparr>"
            using assms s t ne mm True by (simp_all add: gmlAddLinkBody_eq)
          then show ?thesis using calls mm True by simp
        next
          case b
          then have "ctx' = ctx\<lparr>macAddrIter := v'\<rparr>"
            using assms s t ne mm True by (simp_all add: gmlAddLinkBody_eq)
          then show ?thesis using calls mm True by simp
        next
          case c
          let ?p = "rpSetWeight (rpSetWeight (routes ctx) sourceId targetId (weight lnk))
                      targetId sourceId (weight lnk)"
          have "ctx' = ctx\<lparr>macAddrIter := v', routes := ?p\<rparr>"
            using assms s t ne mm True c by (simp_all add: gmlAddLinkBody_eq)
          moreover have "routes ctx \<noteq> None \<longrightarrow> ?p \<noteq> None"
            by (simp add: rpSetWeight_Some)
          ultimately show ?thesis using calls mm True by simp
        qed
      qed
    qed
  qed
qed

lemma gmlAddLink_ignored: "ignoreEdges ctx \<Longrightarrow> gmlAddLink env ctx lnk wr = (0, ctx, [])"
  by (simp add: gmlAddLink_def)

lemma gmlAddLink_too_few_clients:
  assumes "\<not> ignoreEdges ctx" and "\<not> finishedNodes ctx"
    and "clientNodes ctx < edgeNodeCount env"
  shows "gmlAddLink env ctx lnk wr = (1, ctx\<lparr>finishedNodes := True\<rparr>, [])"
  using assms by (simp add: gmlAddLink_def)

lemma gmlAddLink_enough_clients:
  assumes "\<not> ignoreEdges ctx" and "\<not> finishedNodes ctx"
    and "edgeNodeCount env \<le> clientNodes ctx"
    and "gmlAddLink env ctx lnk wr = (res, ctx', calls)"
  shows "(\<exists>more. calls = WorkEnsureSystemScaling (nodeCount ctx * nodeCount ctx)
                            (nodeCount ctx) (clientNodes ctx) # more) \<and>
         (rEnsureSystemScaling wr \<noteq> 0 \<longrightarrow>
            res = rEnsureSystemScaling wr \<and> ctx' = ctx\<lparr>finishedNodes := True\<rparr> \<and>
            calls = [WorkEnsureSystemScaling (nodeCount ctx * nodeCount ctx)
                       (nodeCount ctx) (clientNodes ctx)]) \<and>
         (rEnsureSystemScaling wr = 0 \<longrightarrow>
            routes ctx' \<noteq> None \<and>
            clientsPerEdge_ctx ctx' = clientsPerEdge (fegetround env) (clientNodes ctx) (edgeNodeCount env))"
proof (cases "rEnsureSystemScaling wr = 0")
  case False
  then show ?thesis using assms by (auto simp: gmlAddLink_def Let_def)
next
  case True
  let ?ctx1 = "ctx\<lparr>finishedNodes := True\<rparr>"
  let ?ctx2 = "?ctx1\<lparr>clientsPerEdge_ctx :=
                      clientsPerEdge (fegetround env) (clientNodes ?ctx1) (edgeNodeCount env),
                    routes := Some (rpNewPlanner (nodeCount ?ctx1))\<rparr>"
  have b: "gmlAddLinkBody env ?ctx2 lnk wr
             [WorkEnsureSystemScaling (nodeCount ?ctx1 * nodeCount ?ctx1) (nodeCount ?ctx1)
                (clientNodes ?ctx1)] = (res, ctx', calls)"
    using assms True by (simp add: gmlAddLink_def Let_def)
  from gmlAddLinkBody_frame [OF b] show ?thesis using True by auto
qed

lemma it0_eq:
  "it0 = \<lparr>currentAddr = 167772159, finalAddr = 167772163, ignores = [], ignoreCount = 0,
          currentIgnoreNum = 0\<rparr>"
  by (simp add: it0_def ip4_eval)

lemma initialContext_it0:
  "initialContext it0 =
     \<lparr>finishedNodes = False, ignoreNodes = False, ignoreEdges = False,
      nodeStates = [], nodeCount = 0, clientNodes = 0, gmlToState = [],
      clientsPerEdge_ctx = 0, currentEdgeIdx = 0, currentEdgeClients = 0,
      clientIter = None,
      intfAddrIter = \<lparr>currentAddr = 167772159, finalAddr = 167772163, ignores = [],
                       ignoreCount = 0, currentIgnoreNum = 0\<rparr>,
      macAddrIter = [0, 0, 0, 0, 0, 1], routes = None\<rparr>"
  by (simp add: initialContext_def it0_eq macNextAddr_zero)

lemma zeroMac_eq: "zeroMac = [0, 0, 0, 0, 0, 0]"
  by (simp add: zeroMac_def MAC_ADDR_BYTES_def eval_nat_numeral)

lemma replicate_2: "replicate 2 x = [x, x]"
  by (simp add: numeral_2_eq_2)

lemmas run_eval =
  env0_def wr0_def nodeEv_def linkEv_def replicate_2
  gmlAddNode_def gmlAddLink_def gmlAddLinkBody_eq gmlNameToState_def
  gmlGenerateIp_def setupGraphMLParse_def rpNewPlanner_def rpSetWeight_def
  ip4IterNext_def ip4IterSkip.simps insideIgnore_def IGNORES_REMAIN_def ip4IterAddr_def
  htonl_def ntohl_def dotted_def mac_eval zeroMac_eq











subsection \<open>The client check of the first link\<close>

text \<open>
  In a single-pass run the first link callback finds \<^verbatim>\<open>finishedNodes\<close> unset: it returns
  1 when there are fewer client nodes than edge nodes, having made no worker call and
  created no planner; with enough clients it calls \<^verbatim>\<open>workEnsureSystemScaling\<close> first,
  returns its result if that is nonzero, and otherwise creates the planner and sets
  \<^verbatim>\<open>clientsPerEdge\<close>. A link callback that finds \<^verbatim>\<open>ignoreEdges\<close> set returns 0 and does
  nothing.
\<close>

lemma gmlAddLink_first_link:
  "(ignoreEdges ctx \<longrightarrow> gmlAddLink env ctx lnk wr = (0, ctx, [])) \<and>
   (\<not> ignoreEdges ctx \<and> \<not> finishedNodes ctx \<and> clientNodes ctx < edgeNodeCount env \<longrightarrow>
      gmlAddLink env ctx lnk wr = (1, ctx\<lparr>finishedNodes := True\<rparr>, [])) \<and>
   (\<not> ignoreEdges ctx \<and> \<not> finishedNodes ctx \<and> edgeNodeCount env \<le> clientNodes ctx \<longrightarrow>
      (case gmlAddLink env ctx lnk wr of
         (res, ctx', calls) \<Rightarrow>
           (\<exists>more. calls = WorkEnsureSystemScaling (nodeCount ctx * nodeCount ctx)
                              (nodeCount ctx) (clientNodes ctx) # more) \<and>
           (rEnsureSystemScaling wr \<noteq> 0 \<longrightarrow>
              res = rEnsureSystemScaling wr \<and> ctx' = ctx\<lparr>finishedNodes := True\<rparr> \<and>
              calls = [WorkEnsureSystemScaling (nodeCount ctx * nodeCount ctx)
                         (nodeCount ctx) (clientNodes ctx)]) \<and>
           (rEnsureSystemScaling wr = 0 \<longrightarrow>
              routes ctx' \<noteq> None \<and>
              clientsPerEdge_ctx ctx' =
                clientsPerEdge (fegetround env) (clientNodes ctx) (edgeNodeCount env))))"
proof -
  have e: "(\<exists>more. calls = WorkEnsureSystemScaling (nodeCount ctx * nodeCount ctx)
                              (nodeCount ctx) (clientNodes ctx) # more) \<and>
           (rEnsureSystemScaling wr \<noteq> 0 \<longrightarrow>
              res = rEnsureSystemScaling wr \<and> ctx' = ctx\<lparr>finishedNodes := True\<rparr> \<and>
              calls = [WorkEnsureSystemScaling (nodeCount ctx * nodeCount ctx)
                         (nodeCount ctx) (clientNodes ctx)]) \<and>
           (rEnsureSystemScaling wr = 0 \<longrightarrow>
              routes ctx' \<noteq> None \<and>
              clientsPerEdge_ctx ctx' =
                clientsPerEdge (fegetround env) (clientNodes ctx) (edgeNodeCount env))"
    if "\<not> ignoreEdges ctx" "\<not> finishedNodes ctx" "edgeNodeCount env \<le> clientNodes ctx"
      "gmlAddLink env ctx lnk wr = (res, ctx', calls)" for res ctx' calls
    using gmlAddLink_enough_clients [OF that] .
  show ?thesis
    using gmlAddLink_ignored [of ctx env lnk wr]
      gmlAddLink_too_few_clients [of ctx env lnk wr] e
    by (cases "gmlAddLink env ctx lnk wr") auto
qed

text \<open>
  A document with two nodes, neither a client, and a link between them, for one edge
  node. Read in a single pass, the link callback makes the check and the run fails with
  result 1 before any link is registered.
\<close>

lemma single_pass_checks_clients:
  "setupGraphMLParse env0 False (initialContext it0) []
     [nodeEv ''a'' False, nodeEv ''b'' False, linkEv ''a'' ''b''] =
   (1, \<lparr>finishedNodes = True, ignoreNodes = False, ignoreEdges = False,
        nodeStates =
          [\<lparr>nsAddr = 10, isClient = False, clientSubnet = None,
              clientMacs = [None, None]\<rparr>,
           \<lparr>nsAddr = 16777226, isClient = False, clientSubnet = None,
              clientMacs = [None, None]\<rparr>],
        nodeCount = 2, clientNodes = 0,
        gmlToState = [(''b'', 1), (''a'', 0)], clientsPerEdge_ctx = 0,
        currentEdgeIdx = 0, currentEdgeClients = 0, clientIter = None,
        intfAddrIter =
          \<lparr>currentAddr = 167772161, finalAddr = 167772163, ignores = [],
             ignoreCount = 0, currentIgnoreNum = 0\<rparr>,
        macAddrIter = [0, 0, 0, 0, 0, 1], routes = None\<rparr>,
  [WorkAddHost 0 10 [None, None] \<lparr>client = False\<rparr>,
   WorkAddHost 1 16777226 [None, None] \<lparr>client = False\<rparr>])"
  unfolding initialContext_it0
  by (simp add: run_eval)

text \<open>
  Claim C8 fails on the code in a two-pass run. The first link callback that is not
  ignored comes in the second pass, and \<^verbatim>\<open>setupGraphML\<close> has set \<^verbatim>\<open>finishedNodes\<close> itself
  between the passes; so \<^verbatim>\<open>gmlAddLink\<close> never compares the client count with the edge
  node count and never creates the route planner. The same document, with no client
  for one edge node: both node callbacks and the link callback return 0, the link is
  registered with the worker, no planner exists, and the run returns 0.
\<close>

theorem two_pass_skips_client_check:
  "setupGraphMLParse env0 True (initialContext it0)
     [nodeEv ''a'' False, nodeEv ''b'' False, linkEv ''a'' ''b'']
     [nodeEv ''a'' False, nodeEv ''b'' False, linkEv ''a'' ''b''] =
   (0, \<lparr>finishedNodes = True, ignoreNodes = True, ignoreEdges = False,
        nodeStates =
          [\<lparr>nsAddr = 10, isClient = False, clientSubnet = None,
              clientMacs = [None, None]\<rparr>,
           \<lparr>nsAddr = 16777226, isClient = False, clientSubnet = None,
              clientMacs = [None, None]\<rparr>],
        nodeCount = 2, clientNodes = 0,
        gmlToState = [(''b'', 1), (''a'', 0)], clientsPerEdge_ctx = 0,
        currentEdgeIdx = 0, currentEdgeClients = 0, clientIter = None,
        intfAddrIter =
          \<lparr>currentAddr = 167772161, finalAddr = 167772163, ignores = [],
             ignoreCount = 0, currentIgnoreNum = 0\<rparr>,
        macAddrIter = [0, 0, 0, 0, 0, 3], routes = None\<rparr>,
  [WorkAddHost 0 10 [None, None] \<lparr>client = False\<rparr>,
   WorkAddHost 1 16777226 [None, None] \<lparr>client = False\<rparr>,
   WorkAddLink 0 1 10 16777226 [[0, 0, 0, 0, 0, 1], [0, 0, 0, 0, 0, 2]]])"
  unfolding initialContext_it0
  by (simp add: run_eval)

subsection \<open>The all-zero MAC address\<close>







section \<open>Theorems about the textual form of subnets\<close>

subsection \<open>Decimal numbers\<close>

lemma of_char_digitChar: "d < 10 \<Longrightarrow> (of_char (digitChar d) :: nat) = 48 + d"
  by (simp add: digitChar_def)

lemma digitChar_props:
  assumes "d < 10"
  shows "isdigit (digitChar d)" "of_char (digitChar d) - 48 = d"
    "digitChar d \<noteq> CHR ''.''" "digitChar d \<noteq> CHR ''/''" "digitChar d \<noteq> CHR ''-''"
    "digitChar d \<noteq> CHR ''+''" "\<not> isspace (digitChar d)"
proof -
  have c: "(of_char (digitChar d) :: nat) = 48 + d"
    using assms by (rule of_char_digitChar)
  show "isdigit (digitChar d)" using c assms by (simp add: isdigit_def)
  show "of_char (digitChar d) - 48 = d" using c by simp
  show "\<not> isspace (digitChar d)" using c by (simp add: isspace_def)
  have ne: "digitChar d \<noteq> ch" if "(of_char ch :: nat) < 48" for ch
  proof
    assume "digitChar d = ch"
    then have "(of_char ch :: nat) = 48 + d" using c by simp
    then show False using that by simp
  qed
  show "digitChar d \<noteq> CHR ''.''" by (rule ne) simp
  show "digitChar d \<noteq> CHR ''/''" by (rule ne) simp
  show "digitChar d \<noteq> CHR ''-''" by (rule ne) simp
  show "digitChar d \<noteq> CHR ''+''" by (rule ne) simp
qed

lemma showNat_digits:
  "list_all isdigit (showNat n) \<and> showNat n \<noteq> [] \<and> CHR ''/'' \<notin> set (showNat n)"
proof (induction n rule: showNat.induct)
  case (1 n)
  show ?case
  proof (cases "n < 10")
    case True
    then show ?thesis
      using digitChar_props(1,4) [of n] by (subst (1 2 3) showNat.simps) auto
  next
    case False
    have "n mod 10 < 10" by simp
    then show ?thesis
      using 1 [OF False] False digitChar_props(1,4) [of "n mod 10"]
      by (subst (1 2 3) showNat.simps) auto
  qed
qed

lemma showNat_value:
  "foldl (\<lambda>acc ch. acc * 10 + int (of_char ch - 48)) 0 (showNat n) = int n"
proof (induction n rule: showNat.induct)
  case (1 n)
  show ?case
  proof (cases "n < 10")
    case True
    then show ?thesis
      using digitChar_props(2) [of n] by (subst showNat.simps) simp
  next
    case False
    have d: "n mod 10 < 10" by simp
    have e: "int (n div 10) * 10 + int (n mod 10) = int n"
      by presburger
    show ?thesis
      using 1 [OF False] False digitChar_props(2) [OF d] e
      by (subst showNat.simps) simp
  qed
qed

subsection \<open>Parsing a printed address\<close>

lemma inet_pton4_loop_showNat:
  "n < 256 \<Longrightarrow> octets < 4 \<Longrightarrow>
   inet_pton4_loop (showNat n @ rest) False octets done 0
     = inet_pton4_loop rest True (Suc octets) done n"
proof (induction n arbitrary: rest rule: showNat.induct)
  case (1 n)
  show ?case
  proof (cases "n < 10")
    case True
    then show ?thesis
      using digitChar_props(1,2) [of n] 1(3)
      by (subst showNat.simps) (simp add: Let_def)
  next
    case False
    have d: "n mod 10 < 10" by simp
    have nd: "n div 10 < 256" "n div 10 \<noteq> 0" using 1(2) False by simp_all
    have "inet_pton4_loop (showNat n @ rest) False octets done 0
        = inet_pton4_loop (showNat (n div 10) @ (digitChar (n mod 10) # rest)) False octets done 0"
      using False by (subst showNat.simps) simp
    also have "\<dots> = inet_pton4_loop (digitChar (n mod 10) # rest) True (Suc octets) done (n div 10)"
      using 1(1) [OF False nd(1) 1(3)] .
    also have "\<dots> = inet_pton4_loop rest True (Suc octets) done n"
      using digitChar_props(1,2) [OF d] nd(2) 1(2) by (simp add: Let_def)
    finally show ?thesis .
  qed
qed

lemma inet_pton4_loop_dot:
  "octets < 4 \<Longrightarrow>
   inet_pton4_loop (CHR ''.'' # rest) True octets done cur
     = inet_pton4_loop rest False octets (done @ [cur]) 0"
  by (simp add: isdigit_def)

lemma inet_pton4_dotted:
  assumes "b0 < 256" "b1 < 256" "b2 < 256" "b3 < 256"
  shows "inet_pton4_loop
           (showNat b0 @ ''.'' @ showNat b1 @ ''.'' @ showNat b2 @ ''.'' @ showNat b3)
           False 0 [] 0 = Some [b0, b1, b2, b3]"
proof -
  have "inet_pton4_loop
           (showNat b0 @ (CHR ''.'' # (showNat b1 @ (CHR ''.'' # (showNat b2 @ (CHR ''.'' # (showNat b3 @ []))))))) False 0 [] 0
        = inet_pton4_loop (CHR ''.'' # (showNat b1 @ (CHR ''.'' # (showNat b2 @ (CHR ''.'' # (showNat b3 @ [])))))) True (Suc 0) [] b0"
    by (rule inet_pton4_loop_showNat) (use assms in simp_all)
  also have "\<dots> = inet_pton4_loop (showNat b1 @ (CHR ''.'' # (showNat b2 @ (CHR ''.'' # (showNat b3 @ [])))))  False (Suc 0) ([] @ [b0]) 0"
    by (rule inet_pton4_loop_dot) simp
  also have "\<dots> = inet_pton4_loop (CHR ''.'' # (showNat b2 @ (CHR ''.'' # (showNat b3 @ [])))) True (Suc (Suc 0)) ([] @ [b0]) b1"
    by (rule inet_pton4_loop_showNat) (use assms in simp_all)
  also have "\<dots> = inet_pton4_loop (showNat b2 @ (CHR ''.'' # (showNat b3 @ []))) False (Suc (Suc 0)) (([] @ [b0]) @ [b1]) 0"
    by (rule inet_pton4_loop_dot) simp
  also have "\<dots> = inet_pton4_loop (CHR ''.'' # (showNat b3 @ [])) True (Suc (Suc (Suc 0))) (([] @ [b0]) @ [b1]) b2"
    by (rule inet_pton4_loop_showNat) (use assms in simp_all)
  also have "\<dots> = inet_pton4_loop (showNat b3 @ []) False (Suc (Suc (Suc 0))) ((([] @ [b0]) @ [b1]) @ [b2]) 0"
    by (rule inet_pton4_loop_dot) simp
  also have "\<dots> = inet_pton4_loop [] True (Suc (Suc (Suc (Suc 0)))) ((([] @ [b0]) @ [b1]) @ [b2]) b3"
    by (rule inet_pton4_loop_showNat) (use assms in simp_all)
  also have "\<dots> = Some [b0, b1, b2, b3]"
    by simp
  finally show ?thesis by simp
qed

lemma dotted_octets:
  "dotted (ucast a) (ucast (drop_bit 8 a)) (ucast (drop_bit 16 a)) (ucast (drop_bit 24 a)) = (a :: 32 word)"
proof (rule bit_word_eqI)
  fix n assume n: "n < LENGTH(32)"
  consider "n < 8" | "8 \<le> n" "n < 16" | "16 \<le> n" "n < 24" | "24 \<le> n" "n < 32"
    using n by fastforce
  then show "bit (dotted (ucast a) (ucast (drop_bit 8 a)) (ucast (drop_bit 16 a)) (ucast (drop_bit 24 a))) n = bit a n"
  proof cases
    case 1
    then show ?thesis
      by (simp add: dotted_def bit_or_iff bit_push_bit_iff bit_ucast_iff bit_drop_bit_eq)
  next
    case 2
    then show ?thesis
      by (auto simp add: dotted_def bit_or_iff bit_push_bit_iff bit_ucast_iff bit_drop_bit_eq)
  next
    case 3
    then show ?thesis
      by (auto simp add: dotted_def bit_or_iff bit_push_bit_iff bit_ucast_iff bit_drop_bit_eq)
  next
    case 4
    then show ?thesis
      by (auto simp add: dotted_def bit_or_iff bit_push_bit_iff bit_ucast_iff bit_drop_bit_eq)
  qed
qed

lemma strchr_split_append:
  "c \<notin> set xs \<Longrightarrow> strchr_split (xs @ c # ys) c = Some (xs, ys)"
  by (induction xs) auto

lemma and_not_mask_id:
  "a AND m = 0 \<Longrightarrow> a AND NOT m = (a :: 32 word)"
proof -
  assume z: "a AND m = 0"
  have "a = (a AND m) OR (a AND NOT m)"
    by (rule bit_word_eqI) (auto simp add: bit_or_iff bit_and_iff bit_not_iff)
  then show ?thesis using z by simp
qed

lemma isdigit_props:
  assumes "isdigit ch"
  shows "\<not> isspace ch" "ch \<noteq> CHR ''-''" "ch \<noteq> CHR ''+''"
proof -
  show "\<not> isspace ch" using assms by (auto simp: isdigit_def isspace_def)
  have ne: "ch \<noteq> c" if "(of_char c :: nat) < 48" for c
    using assms that by (auto simp: isdigit_def)
  show "ch \<noteq> CHR ''-''" by (rule ne) simp
  show "ch \<noteq> CHR ''+''" by (rule ne) simp
qed

lemma strtol10_showNat:
  assumes "int p \<le> LONG_MAX"
  shows "strtol10 (showNat p) = (int p, True, [])"
proof -
  obtain ch cs where s: "showNat p = ch # cs"
    using showNat_digits [of p] by (cases "showNat p") auto
  have all: "list_all isdigit (ch # cs)"
    using showNat_digits [of p] s by simp
  then have d: "isdigit ch" by simp
  have tw: "takeWhile isdigit (ch # cs) = ch # cs" "dropWhile isdigit (ch # cs) = []"
    using all by (simp_all add: list_all_iff)
  have dw: "dropWhile isspace (ch # cs) = ch # cs"
    using isdigit_props(1) [OF d] by simp
  have v: "foldl (\<lambda>acc ch. acc * 10 + int (of_char ch - 48)) 0 (ch # cs) = int p"
    using showNat_value [of p] s by simp
  have s2: "(if ch # cs \<noteq> [] \<and> (hd (ch # cs) = CHR ''-'' \<or> hd (ch # cs) = CHR ''+'')
             then tl (ch # cs) else ch # cs) = ch # cs"
    using isdigit_props(2,3) [OF d] by simp
  have neg: "\<not> (ch # cs \<noteq> [] \<and> hd (ch # cs) = CHR ''-'')"
    using isdigit_props(2) [OF d] by simp
  have "strtol10 (ch # cs) = (if int p > LONG_MAX then LONG_MAX else int p, True, [])"
    unfolding strtol10_def Let_def dw s2 tw v
    by (simp only: neg if_False) simp
  then show ?thesis
    using assms s by simp
qed

lemma showNat_length:
  "n < 10 \<Longrightarrow> length (showNat n) = 1"
  "n < 100 \<Longrightarrow> length (showNat n) \<le> 2"
  "n < 1000 \<Longrightarrow> length (showNat n) \<le> 3"
proof -
  show l1: "length (showNat n) = 1" if "n < 10" for n
    using that by (subst showNat.simps) simp
  show l2: "length (showNat n) \<le> 2" if "n < 100" for n
    using that l1 [of "n div 10"] by (subst showNat.simps) simp
  show "length (showNat n) \<le> 3" if "n < 1000"
    using that l2 [of "n div 10"] by (subst showNat.simps) simp
qed

lemma inet_pton4_inet_ntop4: "inet_pton4 (inet_ntop4 a) = Some a"
proof -
  have lt: "unat b < 256" for b :: "8 word"
    using unsigned_less [of b, where ?'a = nat] by simp
  have "inet_pton4_loop (inet_ntop4 a) False 0 [] 0
        = Some [unat (ucast a :: 8 word), unat (ucast (drop_bit 8 a) :: 8 word),
                unat (ucast (drop_bit 16 a) :: 8 word), unat (ucast (drop_bit 24 a) :: 8 word)]"
    unfolding inet_ntop4_def addrOctets_def list.case
    by (rule inet_pton4_dotted) (rule lt)+
  then show ?thesis
    by (simp add: inet_pton4_def dotted_octets)
qed

lemma inet_ntop4_no_slash: "CHR ''/'' \<notin> set (inet_ntop4 a)"
  using showNat_digits by (simp add: inet_ntop4_def addrOctets_def)

lemma inet_ntop4_length: "length (inet_ntop4 a) \<le> 15"
proof -
  have lt: "unat b < 1000" for b :: "8 word"
    using unsigned_less [of b, where ?'a = nat] by simp
  have l: "length (showNat (unat b)) \<le> 3" for b :: "8 word"
    by (rule showNat_length(3)) (rule lt)
  show ?thesis
    using l [of "ucast a"] l [of "ucast (drop_bit 8 a)"] l [of "ucast (drop_bit 16 a)"]
      l [of "ucast (drop_bit 24 a)"]
    by (simp add: inet_ntop4_def addrOctets_def)
qed

lemma ip4GetSubnet_printed:
  assumes "canonical s"
  shows "ip4GetSubnet (inet_ntop4 (addr s) @ ''/'' @ showNat (unat (prefixLen s))) = Some s"
proof -
  have p: "unat (prefixLen s) \<le> 32" and z: "addr s AND ip4HostMask s = 0"
    using assms by (simp_all add: canonical_def)
  have sp: "strchr_split (inet_ntop4 (addr s) @ ''/'' @ showNat (unat (prefixLen s))) CHR ''/''
            = Some (inet_ntop4 (addr s), showNat (unat (prefixLen s)))"
    using strchr_split_append [OF inet_ntop4_no_slash] by simp
  have le32: "int (unat (prefixLen s)) \<le> 32"
    using p by linarith
  from le32 have "int (unat (prefixLen s)) \<le> LONG_MAX"
    unfolding LONG_MAX_def by (rule order_trans) simp
  then have st: "strtol10 (showNat (unat (prefixLen s))) = (int (unat (prefixLen s)), True, [])"
    by (rule strtol10_showNat)
  have hm: "ip4HostMask \<lparr>addr = addr s, prefixLen = prefixLen s\<rparr> = ip4HostMask s"
    by (simp add: ip4HostMask_def)
  have m: "addr s AND NOT (ip4HostMask s) = addr s"
    using z by (rule and_not_mask_id)
  show ?thesis
    unfolding ip4GetSubnet_def sp
    using le32 by (simp add: ip4GetAddr_def inet_pton4_inet_ntop4 st ip4SubnetMask_def hm m)
qed

lemma canonical_example: "canonical \<lparr>addr = dotted 10 0 0 128, prefixLen = 25\<rparr>"
  by (simp add: canonical_def ip4HostMask_def ntohl_def dotted_def)

subsection \<open>Printing, then parsing\<close>

text \<open>
  Claim C10. For every canonical subnet (prefix length between 0 and 32, all host bits of
  the address zero), printing it with \<^verbatim>\<open>ip4SubnetToString\<close> succeeds (return value 0), and
  parsing the printed text with \<^verbatim>\<open>ip4GetSubnet\<close> succeeds and returns the original subnet,
  with the same address and the same prefix length. The buffer only has to hold the longest
  text, \<^verbatim>\<open>255.255.255.255/32\<close> and its terminating NUL: 19 bytes.
\<close>

theorem subnet_print_parse_round_trip:
  assumes "canonical s" and "19 \<le> IP4_CIDR_BUFLEN"
  shows "fst (ip4SubnetToString IP4_CIDR_BUFLEN s) = 0 \<and>
         ip4GetSubnet (snd (ip4SubnetToString IP4_CIDR_BUFLEN s)) = Some s"
proof -
  have p: "unat (prefixLen s) \<le> 32"
    using assms(1) by (simp add: canonical_def)
  have "length (showNat (unat (prefixLen s))) \<le> 2"
    by (rule showNat_length(2)) (use p in simp)
  then have len: "length (inet_ntop4 (addr s) @ ''/'' @ showNat (unat (prefixLen s))) < IP4_CIDR_BUFLEN"
    using inet_ntop4_length [of "addr s"] assms(2) by simp
  have pr: "ip4SubnetToString IP4_CIDR_BUFLEN s
            = (0, inet_ntop4 (addr s) @ ''/'' @ showNat (unat (prefixLen s)))"
    using len by (simp add: ip4SubnetToString_def ip4AddrToString_def Let_def)
  show ?thesis
    unfolding pr using ip4GetSubnet_printed [OF assms(1)] by simp
qed

theorem subnet_print_parse_round_trip_witness:
  "canonical \<lparr>addr = dotted 10 0 0 128, prefixLen = 25\<rparr> \<and> (19 :: nat) \<le> 19 \<and>
   fst (ip4SubnetToString 19 \<lparr>addr = dotted 10 0 0 128, prefixLen = 25\<rparr>) = 0 \<and>
   ip4GetSubnet (snd (ip4SubnetToString 19 \<lparr>addr = dotted 10 0 0 128, prefixLen = 25\<rparr>))
     = Some \<lparr>addr = dotted 10 0 0 128, prefixLen = 25\<rparr>"
  using subnet_print_parse_round_trip [of "\<lparr>addr = dotted 10 0 0 128, prefixLen = 25\<rparr>" 19]
    canonical_example
  by simp

end
